theory Spec2Isabelle
  imports Main "HOL-Library.AList" "HOL-Library.Word"
begin

section \<open>Cluster objects and the client\<close>

text \<open>
  The three reconcilers of package \<open>controllers\<close> talk to the cluster through
  \<open>client.Client\<close>. Every call they make is recorded in a log (a list of calls, in
  the order issued), and what the cluster answers is given by response functions that see
  the whole log up to the call: the model fixes nothing about the cluster's behaviour.
\<close>

datatype error = NotFound | Conflict | ApiError string

record LogicVolume =
  lvName :: string
  lvOwnerReferences :: "string list"
  lvFinalizers :: "string list"
  lvNodeName :: string
  lvNameSpace :: string
  lvPvc :: string
  lvStatus :: string

record Node =
  nodeName :: string
  nodeDeletionTimestamp :: "nat option"
  nodePhase :: string
  nodeCapacity :: "(string \<times> 64 word) list"
  nodeAllocatable :: "(string \<times> 64 word) list"

record CSISource =
  csiDriver :: string
  csiVolumeAttributes :: "(string \<times> string) list"

record ObjectKey =
  keyNamespace :: string
  keyName :: string

record PersistentVolume =
  pvName :: string
  pvCSI :: "CSISource option"
  pvClaimRef :: "ObjectKey option"

record PersistentVolumeClaim =
  pvcNamespace :: string
  pvcName :: string
  pvcAccessModes :: "string list"
  pvcSelector :: "string option"
  pvcResources :: "(string \<times> int) list"
  pvcStorageClassName :: "string option"
  pvcVolumeMode :: "string option"
  pvcDataSource :: "string option"
  pvcVolumeName :: string
  pvcPhase :: string

text \<open>The calls of the volume-rebuild controller. \<open>PatchLV lv2 lv\<close> is
  \<open>r.Patch(ctx, lv2, client.MergeFrom(&lv))\<close>: the object sent and the base it is
  diffed against. The error of \<open>r.Delete(ctx, &newPvc)\<close> is only logged, so the client
  below has no response for it; the call is in the log all the same.\<close>

datatype call =
    ListLogicVolumes
  | ListNodes
  | ListPersistentVolumes
  | DeleteLV LogicVolume
  | PatchLV LogicVolume LogicVolume
  | GetPVC ObjectKey
  | DeletePVC PersistentVolumeClaim
  | CreatePVC PersistentVolumeClaim
  | Sleep nat

record Client =
  clListLV :: "call list \<Rightarrow> error + LogicVolume list"
  clListNode :: "call list \<Rightarrow> error + Node list"
  clListPV :: "call list \<Rightarrow> error + PersistentVolume list"
  clDeleteLV :: "call list \<Rightarrow> LogicVolume \<Rightarrow> error option"
  clPatchLV :: "call list \<Rightarrow> LogicVolume \<Rightarrow> LogicVolume \<Rightarrow> error option"
  clGetPVC :: "call list \<Rightarrow> ObjectKey \<Rightarrow> error + PersistentVolumeClaim"
  clCreatePVC :: "call list \<Rightarrow> PersistentVolumeClaim \<Rightarrow> error option"

section \<open>Helpers of package utils\<close>

text \<open>Modelled from the spec: \<open>utils.ContainsString\<close> is not among the sources. The
  spec speaks of the rebuild finalizer token being "present" in the set of finalizer
  tokens: membership in the slice.\<close>

definition ContainsString :: "string list \<Rightarrow> string \<Rightarrow> bool" where
  "ContainsString strs s = (s \<in> set strs)"

text \<open>Modelled from the spec: \<open>utils.SliceRemoveString\<close> is not among the sources. The
  spec says the controller "strips" or "removes" the rebuild finalizer token: the slice
  without the entries equal to the token, the others in their order.\<close>

definition SliceRemoveString :: "string list \<Rightarrow> string \<Rightarrow> string list" where
  "SliceRemoveString strs s = filter (\<lambda>item. item \<noteq> s) strs"

section \<open>Volume-rebuild controller (node\_controller.go)\<close>

type_synonym volumeObjectMap = "(string \<times> ObjectKey) list"

definition NodeTerminated :: string where
  "NodeTerminated = ''Terminated''"

text \<open>The loop that fills \<open>nodeStatus\<close>: a later node of the same name overwrites.\<close>

fun nodeStatusOf :: "Node list \<Rightarrow> (string \<rightharpoonup> string) \<Rightarrow> (string \<rightharpoonup> string)" where
  "nodeStatusOf [] m = m"
| "nodeStatusOf (n # ns) m =
     (if nodeDeletionTimestamp n \<noteq> None \<or> nodePhase n = NodeTerminated
      then nodeStatusOf ns (m(nodeName n \<mapsto> ''abnormal''))
      else nodeStatusOf ns (m(nodeName n \<mapsto> ''normal'')))"

text \<open>\<open>pvMap\<close>: the names of the listed PersistentVolumes, each mapped to 0. It
  returns the result, the error and the calls it issued.\<close>

fun pvNames :: "PersistentVolume list \<Rightarrow> (string \<rightharpoonup> nat) \<Rightarrow> (string \<rightharpoonup> nat)" where
  "pvNames [] m = m"
| "pvNames (pv # pvs) m = pvNames pvs (m(pvName pv \<mapsto> 0))"

definition pvMap :: "Client \<Rightarrow> call list \<Rightarrow> (string \<rightharpoonup> nat) \<times> error option \<times> call list" where
  "pvMap cl h =
     (case clListPV cl h of
        Inl e \<Rightarrow> (Map.empty, Some e, [ListPersistentVolumes])
      | Inr pvs \<Rightarrow> (pvNames pvs Map.empty, None, [ListPersistentVolumes]))"

text \<open>The body of the loop over \<open>lvList.Items\<close> in \<open>getNeedRebuildVolume\<close>, for one
  LogicVolume: the candidate map after it, the error that ends the pass (if any) and the
  calls issued. \<open>fin\<close> is \<open>utils.LogicVolumeFinalizer\<close>, \<open>cache\<close> is
  \<open>r.cacheNoDeleteLv\<close>, \<open>h\<close> the log so far.\<close>

definition lvBody ::
  "Client \<Rightarrow> string \<Rightarrow> (string \<rightharpoonup> nat) \<Rightarrow> (string \<rightharpoonup> string) \<Rightarrow> (string \<rightharpoonup> nat) \<Rightarrow>
   LogicVolume \<Rightarrow> volumeObjectMap \<Rightarrow> call list \<Rightarrow> volumeObjectMap \<times> error option \<times> call list" where
  "lvBody cl fin cache nodeStatus pvm lv vm h =
     (if length (lvOwnerReferences lv) > 0 then (vm, None, [])
      else if lvStatus lv \<noteq> [] \<and> pvm (lvName lv) = None then
        (if ContainsString (lvFinalizers lv) fin then
           (case clDeleteLV cl h lv of
              Some e \<Rightarrow> (vm, Some e, [DeleteLV lv])
            | None \<Rightarrow>
               (let lv2 = lv\<lparr>lvFinalizers := SliceRemoveString (lvFinalizers lv) fin\<rparr> in
                case clPatchLV cl (h @ [DeleteLV lv]) lv2 lv of
                  Some e \<Rightarrow> (vm, Some e, [DeleteLV lv, PatchLV lv2 lv])
                | None \<Rightarrow> (vm, None, [DeleteLV lv, PatchLV lv2 lv])))
         else (vm, None, []))
      else if lvStatus lv = ''Success'' \<and>
              (cache (lvName lv) \<noteq> None \<or> nodeStatus (lvNodeName lv) = Some ''normal'')
      then (vm, None, [])
      else
        (let vm' = AList.update (lvName lv)
                     \<lparr>keyNamespace = lvNameSpace lv, keyName = lvPvc lv\<rparr> vm in
         if ContainsString (lvFinalizers lv) fin then
           (let lv2 = lv\<lparr>lvFinalizers := SliceRemoveString (lvFinalizers lv) fin\<rparr> in
            case clPatchLV cl h lv2 lv of
              Some e \<Rightarrow> (vm', Some e, [PatchLV lv2 lv])
            | None \<Rightarrow> (vm', None, [PatchLV lv2 lv]))
         else (vm', None, [])))"

fun lvLoop ::
  "Client \<Rightarrow> string \<Rightarrow> (string \<rightharpoonup> nat) \<Rightarrow> (string \<rightharpoonup> string) \<Rightarrow> (string \<rightharpoonup> nat) \<Rightarrow>
   LogicVolume list \<Rightarrow> volumeObjectMap \<Rightarrow> call list \<Rightarrow> volumeObjectMap \<times> error option \<times> call list" where
  "lvLoop cl fin cache nodeStatus pvm [] vm h = (vm, None, [])"
| "lvLoop cl fin cache nodeStatus pvm (lv # lvs) vm h =
     (case lvBody cl fin cache nodeStatus pvm lv vm h of
        (vm', Some e, out) \<Rightarrow> (vm', Some e, out)
      | (vm', None, out) \<Rightarrow>
          (case lvLoop cl fin cache nodeStatus pvm lvs vm' (h @ out) of
             (vm'', err, out') \<Rightarrow> (vm'', err, out @ out')))"

definition getNeedRebuildVolume ::
  "Client \<Rightarrow> string \<Rightarrow> (string \<rightharpoonup> nat) \<Rightarrow> call list \<Rightarrow> volumeObjectMap \<times> error option \<times> call list" where
  "getNeedRebuildVolume cl fin cache h =
     (case clListLV cl h of
        Inl e \<Rightarrow> ([], Some e, [ListLogicVolumes])
      | Inr lvs \<Rightarrow>
          if length lvs = 0 then ([], None, [ListLogicVolumes])
          else
            (case clListNode cl (h @ [ListLogicVolumes]) of
               Inl e \<Rightarrow> ([], Some e, [ListLogicVolumes, ListNodes])
             | Inr nl \<Rightarrow>
                 (case pvMap cl (h @ [ListLogicVolumes, ListNodes]) of
                    (pvm, Some e, out) \<Rightarrow> ([], Some e, [ListLogicVolumes, ListNodes] @ out)
                  | (pvm, None, out) \<Rightarrow>
                      (case lvLoop cl fin cache (nodeStatusOf nl Map.empty) pvm lvs []
                              (h @ [ListLogicVolumes, ListNodes] @ out) of
                         (vm, err, out') \<Rightarrow>
                           (vm, err, [ListLogicVolumes, ListNodes] @ out @ out')))))"

text \<open>Modelled from the spec: \<open>utils.UntilMaxRetry\<close> is not among the sources. The
  spec describes a bounded retry, "up to 12 attempts, 10 time-units apart": \<open>f\<close> is
  tried at most \<open>maxRetry\<close> times, the first success ends the retry, a failed attempt is
  followed by a sleep of \<open>interval\<close>, and the error of the last attempt is returned when
  none succeeded. \<open>f\<close> gets the log so far and gives its error and the calls it
  issued.\<close>

fun UntilMaxRetry_from ::
  "(call list \<Rightarrow> error option \<times> call list) \<Rightarrow> nat \<Rightarrow> nat \<Rightarrow> error option \<Rightarrow> call list \<Rightarrow>
   error option \<times> call list" where
  "UntilMaxRetry_from f 0 interval err h = (err, [])"
| "UntilMaxRetry_from f (Suc n) interval err h =
     (case f h of
        (None, out) \<Rightarrow> (None, out)
      | (Some e, out) \<Rightarrow>
          (case UntilMaxRetry_from f n interval (Some e) (h @ out @ [Sleep interval]) of
             (r, out') \<Rightarrow> (r, out @ [Sleep interval] @ out')))"

definition UntilMaxRetry ::
  "(call list \<Rightarrow> error option \<times> call list) \<Rightarrow> nat \<Rightarrow> nat \<Rightarrow> call list \<Rightarrow> error option \<times> call list" where
  "UntilMaxRetry f maxRetry interval h = UntilMaxRetry_from f maxRetry interval None h"

text \<open>How a pass of \<open>rebuildVolume\<close> ends: it returns nil, it returns an error, or it
  panics (the \<open>log.Warnf\<close> after a failed create dereferences
  \<open>newPvc.Spec.StorageClassName\<close> and \<open>newPvc.Spec.VolumeMode\<close>, which may be nil).\<close>

datatype outcome = Done | Failed error | Panic

text \<open>The claim that \<open>rebuildVolume\<close> builds from the fetched one: only the fields it
  copies are set, the rest are zero values.\<close>

definition newPvcOf :: "ObjectKey \<Rightarrow> PersistentVolumeClaim \<Rightarrow> PersistentVolumeClaim" where
  "newPvcOf obj pvc =
     \<lparr>pvcNamespace = keyNamespace obj, pvcName = keyName obj,
      pvcAccessModes = pvcAccessModes pvc, pvcSelector = pvcSelector pvc,
      pvcResources = pvcResources pvc, pvcStorageClassName = pvcStorageClassName pvc,
      pvcVolumeMode = pvcVolumeMode pvc, pvcDataSource = pvcDataSource pvc,
      pvcVolumeName = [], pvcPhase = []\<rparr>"

text \<open>\<open>rebuildVolume\<close>: the loop over the candidate map, in the order of the list (Go
  leaves the order of a map's iteration open). It gives the outcome, the negative cache
  \<open>r.cacheNoDeleteLv\<close> after the pass and the calls issued.\<close>

fun rebuildVolume ::
  "Client \<Rightarrow> (string \<rightharpoonup> nat) \<Rightarrow> volumeObjectMap \<Rightarrow> call list \<Rightarrow>
   outcome \<times> (string \<rightharpoonup> nat) \<times> call list" where
  "rebuildVolume cl cache [] h = (Done, cache, [])"
| "rebuildVolume cl cache ((key, obj) # rest) h =
     (case clGetPVC cl h obj of
        Inl e \<Rightarrow>
          (case rebuildVolume cl (cache(key \<mapsto> 0)) rest (h @ [GetPVC obj]) of
             (r, cache', out) \<Rightarrow> (r, cache', GetPVC obj # out))
      | Inr pvc \<Rightarrow>
          (let newPvc = newPvcOf obj pvc;
               pre = [GetPVC obj, DeletePVC newPvc] in
           case UntilMaxRetry (\<lambda>h'. (clCreatePVC cl h' newPvc, [CreatePVC newPvc])) 12 10
                  (h @ pre) of
             (Some e, out) \<Rightarrow>
               (if pvcStorageClassName newPvc = None \<or> pvcVolumeMode newPvc = None
                then (Panic, cache, pre @ out)
                else (Failed e, cache, pre @ out))
           | (None, out) \<Rightarrow>
               (case rebuildVolume cl cache rest (h @ pre @ out) of
                  (r, cache', out') \<Rightarrow> (r, cache', pre @ out @ out'))))"

definition resourceReconcile ::
  "Client \<Rightarrow> string \<Rightarrow> (string \<rightharpoonup> nat) \<Rightarrow> call list \<Rightarrow> outcome \<times> (string \<rightharpoonup> nat) \<times> call list" where
  "resourceReconcile cl fin cache h =
     (case getNeedRebuildVolume cl fin cache h of
        (vm, Some e, out) \<Rightarrow> (Failed e, cache, out)
      | (vm, None, out) \<Rightarrow>
          (case rebuildVolume cl cache vm (h @ out) of
             (r, cache', out') \<Rightarrow> (r, cache', out @ out')))"

section \<open>Throttle controller (pod\_controller.go)\<close>

definition KubernetesCustomized :: string where
  "KubernetesCustomized = ''kubernetes.customized''"

definition BlkIOThrottleReadBPS :: string where
  "BlkIOThrottleReadBPS = ''blkio.throttle.read_bps_device''"

definition BlkIOThrottleReadIOPS :: string where
  "BlkIOThrottleReadIOPS = ''blkio.throttle.read_iops_device''"

definition BlkIOThrottleWriteBPS :: string where
  "BlkIOThrottleWriteBPS = ''blkio.throttle.write_bps_device''"

definition BlkIOThrottleWriteIOPS :: string where
  "BlkIOThrottleWriteIOPS = ''blkio.throttle.write_iops_device''"

definition BlkIOCGroupPath :: string where
  "BlkIOCGroupPath = ''/sys/fs/cgroup/blkio/''"

definition PodRunning :: string where
  "PodRunning = ''Running''"

definition blkioNames :: "string list" where
  "blkioNames =
     [BlkIOThrottleReadBPS, BlkIOThrottleReadIOPS, BlkIOThrottleWriteBPS, BlkIOThrottleWriteIOPS]"

text \<open>The constants of package utils that the throttle controller and the capacity
  aggregator use are not among the sources; they are parameters of the model.\<close>

record utils =
  CSIPluginName :: string
  CarinaSchedule :: string
  VolumeDeviceMajor :: string
  VolumeDeviceMinor :: string
  DeviceCapacityKeyPrefix :: string

record Volume =
  volName :: string
  volClaimName :: "string option"

record Pod =
  podNamespace :: string
  podName :: string
  podNodeName :: string
  podSchedulerName :: string
  podAnnotations :: "string \<rightharpoonup> string"
  podDeletionTimestamp :: "nat option"
  podPhase :: string
  podVolumes :: "Volume list"

text \<open>The calls of the throttle controller: cluster reads, sleeps, opening a throttle
  file, and the command run by \<open>Executor.ExecuteCommand\<close>: \<open>ExecuteCommand k v path\<close>
  is \<open>ExecuteCommand("bash", "-c", "echo k v > path")\<close>, kept by its three parts. The
  error of a command is only logged.\<close>

datatype pcall =
    GetPod ObjectKey
  | ListPods string
  | ListPVs string
  | PSleep nat
  | OpenFile string
  | ExecuteCommand string string string

text \<open>\<open>pOpen\<close> gives the lines that \<open>bufio.Scanner\<close> yields for the file, or the error
  of \<open>os.Open\<close>.\<close>

record PodClient =
  pGetPod :: "pcall list \<Rightarrow> ObjectKey \<Rightarrow> error + Pod"
  pListPods :: "pcall list \<Rightarrow> string \<Rightarrow> error + Pod list"
  pListPVs :: "pcall list \<Rightarrow> string \<Rightarrow> error + PersistentVolume list"
  pOpen :: "pcall list \<Rightarrow> string \<Rightarrow> error + string list"

record cgroupblkio =
  cname :: string
  cpath :: string
  oldBlkio :: "(string \<times> string) list"
  newBlkio :: "(string \<times> string) list"

text \<open>\<open>strings.TrimSpace\<close> removes the leading and trailing white space that
  \<open>unicode.IsSpace\<close> knows. A string is its bytes, so each white-space rune is listed by
  its UTF-8 encoding: the six ASCII ones, U+0085, U+00A0, U+1680, U+2000 to U+200A, U+2028,
  U+2029, U+202F, U+205F and U+3000. Runes are trimmed from the left first, then from the
  right (the encodings reversed, on the reversed string). \<open>strings.Split(line, " ")\<close>
  gives one more piece than there are spaces.\<close>

definition spaceRunes :: "string list" where
  "spaceRunes =
     [[CHR 0x09], [CHR 0x0A], [CHR 0x0B], [CHR 0x0C], [CHR 0x0D], [CHR 0x20],
      [CHR 0xC2, CHR 0x85], [CHR 0xC2, CHR 0xA0],
      [CHR 0xE1, CHR 0x9A, CHR 0x80],
      [CHR 0xE2, CHR 0x80, CHR 0x80], [CHR 0xE2, CHR 0x80, CHR 0x81],
      [CHR 0xE2, CHR 0x80, CHR 0x82], [CHR 0xE2, CHR 0x80, CHR 0x83],
      [CHR 0xE2, CHR 0x80, CHR 0x84], [CHR 0xE2, CHR 0x80, CHR 0x85],
      [CHR 0xE2, CHR 0x80, CHR 0x86], [CHR 0xE2, CHR 0x80, CHR 0x87],
      [CHR 0xE2, CHR 0x80, CHR 0x88], [CHR 0xE2, CHR 0x80, CHR 0x89],
      [CHR 0xE2, CHR 0x80, CHR 0x8A],
      [CHR 0xE2, CHR 0x80, CHR 0xA8], [CHR 0xE2, CHR 0x80, CHR 0xA9],
      [CHR 0xE2, CHR 0x80, CHR 0xAF],
      [CHR 0xE2, CHR 0x81, CHR 0x9F],
      [CHR 0xE3, CHR 0x80, CHR 0x80]]"

definition runeWidth :: "string list \<Rightarrow> string \<Rightarrow> nat" where
  "runeWidth runes s =
     (case find (\<lambda>r. take (length r) s = r) runes of None \<Rightarrow> 0 | Some r \<Rightarrow> length r)"

fun trimRunes :: "string list \<Rightarrow> string \<Rightarrow> string" where
  "trimRunes runes [] = []"
| "trimRunes runes (c # cs) =
     (if runeWidth runes (c # cs) = 0 then c # cs
      else trimRunes runes (drop (runeWidth runes (c # cs) - 1) cs))"

definition TrimSpace :: "string \<Rightarrow> string" where
  "TrimSpace s = rev (trimRunes (map rev spaceRunes) (rev (trimRunes spaceRunes s)))"

fun Split :: "string \<Rightarrow> string list" where
  "Split [] = [[]]"
| "Split (c # cs) =
     (if c = CHR '' '' then [] # Split cs
      else (c # hd (Split cs)) # tl (Split cs))"

text \<open>The scan loop of \<open>readCGroupBlkioFile\<close>: \<open>strSlice[1]\<close> is out of range, and Go
  panics, when the trimmed line has no space.\<close>

fun scanLines :: "string list \<Rightarrow> (string \<times> string) list \<Rightarrow> (string \<times> string) list option" where
  "scanLines [] old = Some old"
| "scanLines (line # lines) old =
     (let strSlice = Split (TrimSpace line) in
      if length strSlice < 2 then None
      else scanLines lines (AList.update (strSlice ! 0) (strSlice ! 1) old))"

text \<open>\<open>readCGroupBlkioFile\<close>, over the four names: \<open>None\<close> is the panic. A file that
  cannot be opened is skipped by \<open>continue\<close>, before \<open>cb = append(cb, ctmp)\<close>.\<close>

fun readFiles ::
  "PodClient \<Rightarrow> string list \<Rightarrow> pcall list \<Rightarrow> cgroupblkio list option \<times> pcall list" where
  "readFiles cl [] h = (Some [], [])"
| "readFiles cl (v # vs) h =
     (let path = BlkIOCGroupPath @ v in
      case pOpen cl h path of
        Inl e \<Rightarrow>
          (case readFiles cl vs (h @ [OpenFile path]) of
             (r, out) \<Rightarrow> (r, OpenFile path # out))
      | Inr lines \<Rightarrow>
          (case scanLines lines [] of
             None \<Rightarrow> (None, [OpenFile path])
           | Some old \<Rightarrow>
               (case readFiles cl vs (h @ [OpenFile path]) of
                  (None, out) \<Rightarrow> (None, OpenFile path # out)
                | (Some cb, out) \<Rightarrow>
                    (Some (\<lparr>cname = v, cpath = path, oldBlkio = old, newBlkio = []\<rparr> # cb),
                     OpenFile path # out))))"

definition readCGroupBlkioFile :: "PodClient \<Rightarrow> pcall list \<Rightarrow> cgroupblkio list option \<times> pcall list" where
  "readCGroupBlkioFile cl h = readFiles cl blkioNames h"

text \<open>\<open>writeCgroupBlkioFile\<close>: for each limit kind, the entries of \<open>newBlkio\<close> equal
  to the old value are deleted, then one command is run for each entry left.\<close>

fun dropUnchanged :: "(string \<times> string) list \<Rightarrow> (string \<times> string) list \<Rightarrow> (string \<times> string) list" where
  "dropUnchanged [] new = new"
| "dropUnchanged ((k, v) # old) new =
     (case map_of new k of
        Some nv \<Rightarrow> (if v = nv then dropUnchanged old (AList.delete k new)
                    else dropUnchanged old new)
      | None \<Rightarrow> dropUnchanged old new)"

definition writeOne :: "cgroupblkio \<Rightarrow> pcall list" where
  "writeOne c =
     map (\<lambda>(k, v). ExecuteCommand k v (cpath c))
       (dropUnchanged (oldBlkio c) (newBlkio c))"

definition writeCgroupBlkioFile :: "cgroupblkio list \<Rightarrow> pcall list" where
  "writeCgroupBlkioFile cp = concat (map writeOne cp)"

text \<open>What both paths do for one volume of a pod before they fill the limits (the same
  lines in \<open>SinglePodCGroupConfig\<close> and \<open>AllPodCGroupConfig\<close>): the volume is skipped,
  or its device key \<open>major:minor\<close> is found, or \<open>pvInfo.Spec.CSI.Driver\<close> dereferences
  a nil \<open>CSI\<close> and the program panics.\<close>

datatype resolution = Skip | NilCSI | Key string

definition attr :: "(string \<times> string) list \<Rightarrow> string \<Rightarrow> string" where
  "attr m k = (case map_of m k of None \<Rightarrow> [] | Some v \<Rightarrow> v)"

definition resolveVolume ::
  "utils \<Rightarrow> PodClient \<Rightarrow> string \<Rightarrow> Volume \<Rightarrow> pcall list \<Rightarrow> resolution \<times> pcall list" where
  "resolveVolume u cl ns volume h =
     (case volClaimName volume of
        None \<Rightarrow> (Skip, [])
      | Some claim \<Rightarrow>
          (let idx = ns @ ''-'' @ claim in
           case pListPVs cl h idx of
             Inl e \<Rightarrow> (Skip, [ListPVs idx])
           | Inr items \<Rightarrow>
               if length items \<noteq> 1 then (Skip, [ListPVs idx])
               else
                 (case pvCSI (items ! 0) of
                    None \<Rightarrow> (NilCSI, [ListPVs idx])
                  | Some csi \<Rightarrow>
                      if csiDriver csi \<noteq> CSIPluginName u then (Skip, [ListPVs idx])
                      else
                        (Key (attr (csiVolumeAttributes csi) (VolumeDeviceMajor u) @ '':'' @
                              attr (csiVolumeAttributes csi) (VolumeDeviceMinor u)),
                         [ListPVs idx]))))"

definition annotationKey :: "string \<Rightarrow> string" where
  "annotationKey name = KubernetesCustomized @ ''/'' @ name"

text \<open>The inner loop \<open>for _, c := range cb\<close> of the single-pod path.\<close>

definition fillSingle :: "Pod \<Rightarrow> string \<Rightarrow> cgroupblkio \<Rightarrow> cgroupblkio" where
  "fillSingle pod blkioKey c =
     (case podAnnotations pod (annotationKey (cname c)) of
        Some newValue \<Rightarrow> c\<lparr>newBlkio := AList.update blkioKey newValue (newBlkio c)\<rparr>
      | None \<Rightarrow> c\<lparr>newBlkio := AList.update blkioKey ''0'' (newBlkio c)\<rparr>)"

fun singleVolumes ::
  "utils \<Rightarrow> PodClient \<Rightarrow> Pod \<Rightarrow> Volume list \<Rightarrow> cgroupblkio list \<Rightarrow> pcall list \<Rightarrow>
   cgroupblkio list option \<times> pcall list" where
  "singleVolumes u cl pod [] cb h = (Some cb, [])"
| "singleVolumes u cl pod (volume # volumes) cb h =
     (case resolveVolume u cl (podNamespace pod) volume h of
        (NilCSI, out) \<Rightarrow> (None, out)
      | (Skip, out) \<Rightarrow>
          (case singleVolumes u cl pod volumes cb (h @ out) of
             (r, out') \<Rightarrow> (r, out @ out'))
      | (Key blkioKey, out) \<Rightarrow>
          (case singleVolumes u cl pod volumes (map (fillSingle pod blkioKey) cb) (h @ out) of
             (r, out') \<Rightarrow> (r, out @ out')))"

definition SinglePodCGroupConfig ::
  "utils \<Rightarrow> PodClient \<Rightarrow> Pod \<Rightarrow> pcall list \<Rightarrow> outcome \<times> pcall list" where
  "SinglePodCGroupConfig u cl pod h =
     (let cb = map (\<lambda>v. \<lparr>cname = v, cpath = BlkIOCGroupPath @ v, oldBlkio = [], newBlkio = []\<rparr>)
                 blkioNames in
      case singleVolumes u cl pod (podVolumes pod) cb h of
        (None, out) \<Rightarrow> (Panic, out)
      | (Some cb', out) \<Rightarrow> (Done, out @ writeCgroupBlkioFile cb'))"

text \<open>The inner loop \<open>for _, c := range cb\<close> of the full-resync path.\<close>

definition fillAll :: "Pod \<Rightarrow> string \<Rightarrow> cgroupblkio \<Rightarrow> cgroupblkio" where
  "fillAll p blkioKey c =
     (case podAnnotations p (annotationKey (cname c)) of
        Some newValue \<Rightarrow> c\<lparr>newBlkio := AList.update blkioKey newValue (newBlkio c)\<rparr>
      | None \<Rightarrow>
          if map_of (oldBlkio c) blkioKey \<noteq> None
          then c\<lparr>newBlkio := AList.update blkioKey ''0'' (newBlkio c)\<rparr>
          else c)"

fun allVolumes ::
  "utils \<Rightarrow> PodClient \<Rightarrow> Pod \<Rightarrow> Volume list \<Rightarrow> cgroupblkio list \<Rightarrow> pcall list \<Rightarrow>
   cgroupblkio list option \<times> pcall list" where
  "allVolumes u cl p [] cb h = (Some cb, [])"
| "allVolumes u cl p (volume # volumes) cb h =
     (case resolveVolume u cl (podNamespace p) volume h of
        (NilCSI, out) \<Rightarrow> (None, out)
      | (Skip, out) \<Rightarrow>
          (case allVolumes u cl p volumes cb (h @ out) of
             (r, out') \<Rightarrow> (r, out @ out'))
      | (Key blkioKey, out) \<Rightarrow>
          (case allVolumes u cl p volumes (map (fillAll p blkioKey) cb) (h @ out) of
             (r, out') \<Rightarrow> (r, out @ out')))"

fun allPods ::
  "utils \<Rightarrow> PodClient \<Rightarrow> Pod list \<Rightarrow> cgroupblkio list \<Rightarrow> pcall list \<Rightarrow>
   cgroupblkio list option \<times> pcall list" where
  "allPods u cl [] cb h = (Some cb, [])"
| "allPods u cl (p # ps) cb h =
     (case allVolumes u cl p (podVolumes p) cb h of
        (None, out) \<Rightarrow> (None, out)
      | (Some cb', out) \<Rightarrow>
          (case allPods u cl ps cb' (h @ out) of
             (r, out') \<Rightarrow> (r, out @ out')))"

definition AllPodCGroupConfig ::
  "utils \<Rightarrow> PodClient \<Rightarrow> string \<Rightarrow> pcall list \<Rightarrow> outcome \<times> pcall list" where
  "AllPodCGroupConfig u cl nodeName_r h =
     (let idx = CarinaSchedule u @ ''-'' @ nodeName_r in
      case pListPods cl h idx of
        Inl e \<Rightarrow> (Failed e, [ListPods idx])
      | Inr items \<Rightarrow>
          (case readCGroupBlkioFile cl (h @ [ListPods idx]) of
             (None, out) \<Rightarrow> (Panic, ListPods idx # out)
           | (Some cb, out) \<Rightarrow>
               (case allPods u cl items cb (h @ ListPods idx # out) of
                  (None, out') \<Rightarrow> (Panic, ListPods idx # out @ out')
                | (Some cb', out') \<Rightarrow>
                    (Done, ListPods idx # out @ out' @ writeCgroupBlkioFile cb'))))"

text \<open>The waiting loop of \<open>Reconcile\<close>, \<open>n\<close> rounds left: \<open>None\<close> when the loop
  returns from \<open>Reconcile\<close> (with the nil error it tests for), else the pod to go on
  with.\<close>

fun waitRunning ::
  "PodClient \<Rightarrow> ObjectKey \<Rightarrow> nat \<Rightarrow> Pod \<Rightarrow> pcall list \<Rightarrow> Pod option \<times> pcall list" where
  "waitRunning cl req 0 pod h = (Some pod, [])"
| "waitRunning cl req (Suc n) pod h =
     (if podPhase pod = PodRunning then (Some pod, [])
      else
        (case pGetPod cl (h @ [PSleep 30]) req of
           Inr pod' \<Rightarrow> (None, [PSleep 30, GetPod req])
         | Inl e \<Rightarrow>
             (case waitRunning cl req n pod (h @ [PSleep 30, GetPod req]) of
                (r, out) \<Rightarrow> (r, [PSleep 30, GetPod req] @ out))))"

definition Reconcile :: "utils \<Rightarrow> PodClient \<Rightarrow> ObjectKey \<Rightarrow> pcall list \<Rightarrow> outcome \<times> pcall list" where
  "Reconcile u cl req h =
     (case pGetPod cl h req of
        Inl e \<Rightarrow> (if e = NotFound then (Done, [GetPod req]) else (Failed e, [GetPod req]))
      | Inr pod \<Rightarrow>
          if podDeletionTimestamp pod \<noteq> None then (Done, [GetPod req])
          else
            (case waitRunning cl req 5 pod (h @ [GetPod req]) of
               (None, out) \<Rightarrow> (Done, GetPod req # out)
             | (Some pod', out) \<Rightarrow>
                 (case SinglePodCGroupConfig u cl pod' (h @ GetPod req # out) of
                    (r, out') \<Rightarrow> (r, GetPod req # out @ out'))))"

text \<open>The event filter: \<open>filter\<close> gets the pod of the event, \<open>None\<close> for nil.\<close>

record UpdateEvent =
  ObjectOld :: "Pod option"
  ObjectNew :: "Pod option"

definition podFilter_filter :: "utils \<Rightarrow> string \<Rightarrow> Pod option \<Rightarrow> bool" where
  "podFilter_filter u nodeName_p pod =
     (case pod of
        None \<Rightarrow> False
      | Some p \<Rightarrow>
          if podNodeName p = nodeName_p \<and> podSchedulerName p = CarinaSchedule u then True
          else False)"

definition podFilter_Create :: "utils \<Rightarrow> string \<Rightarrow> Pod option \<Rightarrow> bool" where
  "podFilter_Create u nodeName_p obj = podFilter_filter u nodeName_p obj"

definition podFilter_Delete :: "utils \<Rightarrow> string \<Rightarrow> Pod option \<Rightarrow> bool" where
  "podFilter_Delete u nodeName_p obj = False"

definition podFilter_Update :: "utils \<Rightarrow> string \<Rightarrow> UpdateEvent \<Rightarrow> bool" where
  "podFilter_Update u nodeName_p e = podFilter_filter u nodeName_p (ObjectNew e)"

definition podFilter_Generic :: "utils \<Rightarrow> string \<Rightarrow> Pod option \<Rightarrow> bool" where
  "podFilter_Generic u nodeName_p obj = False"

section \<open>Capacity aggregator (persistentvolume\_controller.go)\<close>

text \<open>\<open>fmt.Sprintf("%d", v.Value())\<close>: \<open>Value()\<close> is an \<open>int64\<close>, so a quantity
  of a node is kept as the 64-bit word that \<open>Value()\<close> returns, read as a signed
  number and printed in decimal digits.\<close>

fun digits :: "nat \<Rightarrow> string" where
  "digits n =
     (if n < 10 then [''0123456789'' ! n]
      else digits (n div 10) @ [''0123456789'' ! (n mod 10)])"

declare digits.simps [simp del]

definition Sprintf_d :: "64 word \<Rightarrow> string" where
  "Sprintf_d v =
     (if sint v < 0 then CHR ''-'' # digits (nat (- sint v)) else digits (nat (sint v)))"

text \<open>Modelled from the spec: \<open>utils.MapEqualMap\<close> is not among the sources. The spec
  asks for "field-exact equality" of two records: the same number of keys, and every key
  of the first has the same value in the second.\<close>

definition MapEqualMap :: "(string \<times> string) list \<Rightarrow> (string \<times> string) list \<Rightarrow> bool" where
  "MapEqualMap src dst =
     (length src = length dst \<and> list_all (\<lambda>(k, v). map_of dst k = Some v) src)"

type_synonym nodeRecord = "(string \<times> string) list"

text \<open>The calls of the capacity aggregator; a write carries the list that
  \<open>json.Marshal\<close> serialises into the field \<open>node\<close>.\<close>

datatype ccall =
    CListNodes
  | GetCM
  | CreateCM "nodeRecord list"
  | UpdateCM "nodeRecord list"

record CMClient =
  cListNode :: "ccall list \<Rightarrow> error + Node list"
  cGetCM :: "ccall list \<Rightarrow> error option"
  cCreateCM :: "ccall list \<Rightarrow> nodeRecord list \<Rightarrow> error option"
  cUpdateCM :: "ccall list \<Rightarrow> nodeRecord list \<Rightarrow> error option"

definition HasPrefix :: "string \<Rightarrow> string \<Rightarrow> bool" where
  "HasPrefix s pre = (take (length pre) s = pre)"

fun quantities ::
  "utils \<Rightarrow> string \<Rightarrow> (string \<times> 64 word) list \<Rightarrow> nodeRecord \<Rightarrow> nodeRecord" where
  "quantities u label [] tmp = tmp"
| "quantities u label ((key, v) # rest) tmp =
     (if HasPrefix key (DeviceCapacityKeyPrefix u)
      then quantities u label rest (AList.update (label @ key) (Sprintf_d v) tmp)
      else quantities u label rest tmp)"

fun nodeDeviceOf :: "utils \<Rightarrow> Node list \<Rightarrow> nodeRecord list" where
  "nodeDeviceOf u [] = []"
| "nodeDeviceOf u (node # nodes) =
     (let tmp = quantities u ''allocatable.'' (nodeAllocatable node)
                  (quantities u ''capacity.'' (nodeCapacity node) []) in
      if length tmp > 0
      then AList.update ''nodeName'' (nodeName node) tmp # nodeDeviceOf u nodes
      else nodeDeviceOf u nodes)"

type_synonym cacheConfigMap = "(string \<times> nodeRecord) list"

fun cacheHit_loop :: "cacheConfigMap \<Rightarrow> nodeRecord list \<Rightarrow> bool" where
  "cacheHit_loop cache [] = True"
| "cacheHit_loop cache (v # rest) =
     (case map_of cache (attr v ''nodeName'') of
        None \<Rightarrow> False
      | Some cached \<Rightarrow> if \<not> MapEqualMap v cached then False else cacheHit_loop cache rest)"

definition cacheHit :: "cacheConfigMap \<Rightarrow> nodeRecord list \<Rightarrow> bool" where
  "cacheHit cache nodeDevice =
     (if length cache \<noteq> length nodeDevice then False else cacheHit_loop cache nodeDevice)"

fun cacheRefresh_loop :: "nodeRecord list \<Rightarrow> cacheConfigMap \<Rightarrow> cacheConfigMap" where
  "cacheRefresh_loop [] cache = cache"
| "cacheRefresh_loop (v # rest) cache =
     cacheRefresh_loop rest (AList.update (attr v ''nodeName'') v cache)"

definition cacheRefresh :: "nodeRecord list \<Rightarrow> cacheConfigMap" where
  "cacheRefresh nodeDevice = cacheRefresh_loop nodeDevice []"

text \<open>\<open>updateNodeConfigMap\<close>: the error returned, \<open>r.cacheConfigMap\<close> after the pass
  and the calls issued.\<close>

definition updateNodeConfigMap ::
  "utils \<Rightarrow> CMClient \<Rightarrow> cacheConfigMap \<Rightarrow> ccall list \<Rightarrow> error option \<times> cacheConfigMap \<times> ccall list" where
  "updateNodeConfigMap u cl cache h =
     (case cListNode cl h of
        Inl e \<Rightarrow> (Some e, cache, [CListNodes])
      | Inr nl \<Rightarrow>
          (let nodeDevice = nodeDeviceOf u nl in
           if cacheHit cache nodeDevice then (None, cache, [CListNodes])
           else
             (case cGetCM cl (h @ [CListNodes]) of
                Some e \<Rightarrow>
                  if e = NotFound then
                    (case cCreateCM cl (h @ [CListNodes, GetCM]) nodeDevice of
                       Some e' \<Rightarrow> (Some e', cache, [CListNodes, GetCM, CreateCM nodeDevice])
                     | None \<Rightarrow> (None, cache, [CListNodes, GetCM, CreateCM nodeDevice]))
                  else (Some e, cache, [CListNodes, GetCM])
              | None \<Rightarrow>
                  (case cUpdateCM cl (h @ [CListNodes, GetCM]) nodeDevice of
                     Some e \<Rightarrow> (Some e, cache, [CListNodes, GetCM, UpdateCM nodeDevice])
                   | None \<Rightarrow>
                       (None, cacheRefresh nodeDevice,
                        [CListNodes, GetCM, UpdateCM nodeDevice])))))"

section \<open>Vocabulary of the properties\<close>

text \<open>The values written for device \<open>k\<close> into the throttle file \<open>path\<close>, in the
  order of the log.\<close>

fun writesFor :: "string \<Rightarrow> string \<Rightarrow> pcall list \<Rightarrow> string list" where
  "writesFor k path [] = []"
| "writesFor k path (ExecuteCommand k' v p # cs) =
     (if k' = k \<and> p = path then v # writesFor k path cs else writesFor k path cs)"
| "writesFor k path (c # cs) = writesFor k path cs"

text \<open>The device keys that the full-resync pass resolves, each with the pod whose volume
  it is, in the order of the pass: the walk of \<open>allVolumes\<close> and \<open>allPods\<close> with the
  limits left out.\<close>

fun refsVolumes ::
  "utils \<Rightarrow> PodClient \<Rightarrow> Pod \<Rightarrow> Volume list \<Rightarrow> pcall list \<Rightarrow>
   (Pod \<times> string) list option \<times> pcall list" where
  "refsVolumes u cl p [] h = (Some [], [])"
| "refsVolumes u cl p (volume # volumes) h =
     (case resolveVolume u cl (podNamespace p) volume h of
        (NilCSI, out) \<Rightarrow> (None, out)
      | (Skip, out) \<Rightarrow>
          (case refsVolumes u cl p volumes (h @ out) of
             (r, out') \<Rightarrow> (r, out @ out'))
      | (Key blkioKey, out) \<Rightarrow>
          (case refsVolumes u cl p volumes (h @ out) of
             (r, out') \<Rightarrow> (map_option ((#) (p, blkioKey)) r, out @ out')))"

fun refsPods ::
  "utils \<Rightarrow> PodClient \<Rightarrow> Pod list \<Rightarrow> pcall list \<Rightarrow> (Pod \<times> string) list option \<times> pcall list" where
  "refsPods u cl [] h = (Some [], [])"
| "refsPods u cl (p # ps) h =
     (case refsVolumes u cl p (podVolumes p) h of
        (None, out) \<Rightarrow> (None, out)
      | (Some rs, out) \<Rightarrow>
          (case refsPods u cl ps (h @ out) of
             (r, out') \<Rightarrow> (map_option ((@) rs) r, out @ out')))"

text \<open>One limit kind after the inner loop has run for each of these references, in their
  order.\<close>

definition fillRefs :: "(Pod \<times> string) list \<Rightarrow> cgroupblkio \<Rightarrow> cgroupblkio" where
  "fillRefs rs c = fold (\<lambda>(q, k) c'. fillAll q k c') rs c"

text \<open>The handling of an orphaned LogicVolume in the words of the specification: the patch
  that strips the rebuild finalizer (if the token is present) comes first, the delete
  after it.\<close>

definition stripThenDelete :: "string \<Rightarrow> LogicVolume \<Rightarrow> call list \<Rightarrow> bool" where
  "stripThenDelete fin lv out =
     (if ContainsString (lvFinalizers lv) fin
      then DeleteLV lv \<in> set (dropWhile
             (\<lambda>c. c \<noteq> PatchLV (lv\<lparr>lvFinalizers := SliceRemoveString (lvFinalizers lv) fin\<rparr>) lv)
             out)
      else DeleteLV lv \<in> set out)"

section \<open>Example clusters\<close>

definition exFinalizer :: string where
  "exFinalizer = ''carina.storage.io/logicvolume''"

definition lvOwned :: LogicVolume where
  "lvOwned = \<lparr>lvName = ''lv-owned'', lvOwnerReferences = [''bcache''],
     lvFinalizers = [exFinalizer], lvNodeName = ''node-gone'', lvNameSpace = ''default'',
     lvPvc = ''pvc-owned'', lvStatus = ''Failed''\<rparr>"

definition lvOrphan :: LogicVolume where
  "lvOrphan = \<lparr>lvName = ''lv-orphan'', lvOwnerReferences = [],
     lvFinalizers = [exFinalizer, ''kubernetes''], lvNodeName = ''node-gone'',
     lvNameSpace = ''default'', lvPvc = ''pvc-orphan'', lvStatus = ''Failed''\<rparr>"

definition lvBare :: LogicVolume where
  "lvBare = \<lparr>lvName = ''lv-bare'', lvOwnerReferences = [],
     lvFinalizers = [], lvNodeName = ''node-gone'',
     lvNameSpace = ''default'', lvPvc = ''pvc-bare'', lvStatus = ''Failed''\<rparr>"

definition lvLost :: LogicVolume where
  "lvLost = \<lparr>lvName = ''lv-lost'', lvOwnerReferences = [],
     lvFinalizers = [exFinalizer], lvNodeName = ''node-gone'', lvNameSpace = ''default'',
     lvPvc = ''pvc-lost'', lvStatus = ''Success''\<rparr>"

definition pvLost :: PersistentVolume where
  "pvLost = \<lparr>pvName = ''lv-lost'', pvCSI = None, pvClaimRef = None\<rparr>"

definition pvcLost :: PersistentVolumeClaim where
  "pvcLost = \<lparr>pvcNamespace = ''default'', pvcName = ''pvc-lost'',
     pvcAccessModes = [''ReadWriteOnce''], pvcSelector = None,
     pvcResources = [(''storage'', 10)], pvcStorageClassName = Some ''csi-carina-sc'',
     pvcVolumeMode = Some ''Filesystem'', pvcDataSource = None,
     pvcVolumeName = ''lv-lost'', pvcPhase = ''Bound''\<rparr>"

text \<open>A cluster that answers every call with success, has the four LogicVolumes above, no
  node, one PersistentVolume (of \<open>lvLost\<close>), and knows the claim of \<open>lvLost\<close> only.\<close>

definition exClient :: Client where
  "exClient = \<lparr>
     clListLV = (\<lambda>h. Inr [lvOwned, lvOrphan, lvBare, lvLost]),
     clListNode = (\<lambda>h. Inr []),
     clListPV = (\<lambda>h. Inr [pvLost]),
     clDeleteLV = (\<lambda>h lv. None),
     clPatchLV = (\<lambda>h lv2 lv. None),
     clGetPVC = (\<lambda>h k. if keyName k = ''pvc-lost'' then Inr pvcLost else Inl NotFound),
     clCreatePVC = (\<lambda>h p. None)\<rparr>"

text \<open>The same cluster with claims that do not go away: every claim is found, and every
  create is refused because the claim still exists.\<close>

definition stuckClient :: Client where
  "stuckClient = exClient\<lparr>
     clGetPVC := (\<lambda>h k. Inr (pvcLost\<lparr>pvcNamespace := keyNamespace k, pvcName := keyName k\<rparr>)),
     clCreatePVC := (\<lambda>h p. Some (ApiError ''AlreadyExists''))\<rparr>"


text \<open>A node of the throttle controller: one pod of the local scheduler with a read-bytes
  override, whose claim is bound to a volume on device 8:16.\<close>

definition exUtils :: utils where
  "exUtils = \<lparr>CSIPluginName = ''carina.storage.io'', CarinaSchedule = ''carina-scheduler'',
     VolumeDeviceMajor = ''carina.storage.io/dev-major'',
     VolumeDeviceMinor = ''carina.storage.io/dev-minor'',
     DeviceCapacityKeyPrefix = ''carina.storage.io/''\<rparr>"

definition podWeb :: Pod where
  "podWeb = \<lparr>podNamespace = ''default'', podName = ''web-0'', podNodeName = ''node1'',
     podSchedulerName = ''carina-scheduler'',
     podAnnotations = [''kubernetes.customized/blkio.throttle.read_bps_device'' \<mapsto> ''104857600''],
     podDeletionTimestamp = None, podPhase = ''Pending'',
     podVolumes = [\<lparr>volName = ''data'', volClaimName = Some ''pvc-data''\<rparr>]\<rparr>"

definition reqWeb :: ObjectKey where
  "reqWeb = \<lparr>keyNamespace = ''default'', keyName = ''web-0''\<rparr>"

definition pvData :: PersistentVolume where
  "pvData = \<lparr>pvName = ''pv-data'',
     pvCSI = Some \<lparr>csiDriver = ''carina.storage.io'',
       csiVolumeAttributes = [(''carina.storage.io/dev-major'', ''8''),
                              (''carina.storage.io/dev-minor'', ''16'')]\<rparr>,
     pvClaimRef = Some \<lparr>keyNamespace = ''default'', keyName = ''pvc-data''\<rparr>\<rparr>"

text \<open>The pod is pending when the reconcile starts and running at every later fetch; no
  throttle file can be opened.\<close>

definition startingClient :: PodClient where
  "startingClient = \<lparr>
     pGetPod = (\<lambda>h k. if h = [] then Inr podWeb else Inr (podWeb\<lparr>podPhase := ''Running''\<rparr>)),
     pListPods = (\<lambda>h idx. Inr [podWeb\<lparr>podPhase := ''Running''\<rparr>]),
     pListPVs = (\<lambda>h idx. if idx = ''default-pvc-data'' then Inr [pvData] else Inr []),
     pOpen = (\<lambda>h path. Inl NotFound)\<rparr>"

text \<open>The pod is being deleted.\<close>

definition deletingClient :: PodClient where
  "deletingClient = startingClient\<lparr>
     pGetPod := (\<lambda>h k. Inr (podWeb\<lparr>podPhase := ''Running'', podDeletionTimestamp := Some 1\<rparr>))\<rparr>"

text \<open>Every throttle file has a line with a device key and no value.\<close>

definition malformedClient :: PodClient where
  "malformedClient = startingClient\<lparr>pOpen := (\<lambda>h path. Inr [''8:16 1048576'', ''8:32''])\<rparr>"

text \<open>The host has a read-bytes limit on device 8:16 and no pod of the local scheduler is
  left on the node.\<close>

definition idleClient :: PodClient where
  "idleClient = startingClient\<lparr>
     pListPods := (\<lambda>h idx. Inr []),
     pOpen := (\<lambda>h path. if path = BlkIOCGroupPath @ BlkIOThrottleReadBPS
                           then Inr [''8:16 1048576''] else Inr [])\<rparr>"

text \<open>The host has a write-bytes limit on device 8:16, the volume of the one pod on the
  node, which has no write-bytes override.\<close>

definition limitedClient :: PodClient where
  "limitedClient = startingClient\<lparr>
     pOpen := (\<lambda>h path. if path = BlkIOCGroupPath @ BlkIOThrottleWriteBPS
                           then Inr [''8:16 1048576''] else Inr [])\<rparr>"

definition limitWriteBPS :: cgroupblkio where
  "limitWriteBPS = \<lparr>cname = BlkIOThrottleWriteBPS,
     cpath = BlkIOCGroupPath @ BlkIOThrottleWriteBPS,
     oldBlkio = [(''8:16'', ''1048576'')], newBlkio = []\<rparr>"

text \<open>A cluster of one node with a device capacity, where the artifact
  \<open>carina-node-storage\<close> does not exist before the first pass has created it.\<close>

definition nodeOne :: Node where
  "nodeOne = \<lparr>nodeName = ''node1'', nodeDeletionTimestamp = None, nodePhase = ''Running'',
     nodeCapacity = [(''carina.storage.io/carina-vg-hdd'', 100), (''cpu'', 8)],
     nodeAllocatable = [(''carina.storage.io/carina-vg-hdd'', 90)]\<rparr>"

definition freshClient :: CMClient where
  "freshClient = \<lparr>
     cListNode = (\<lambda>h. Inr [nodeOne]),
     cGetCM = (\<lambda>h. if list_ex (\<lambda>c. case c of CreateCM d \<Rightarrow> True | _ \<Rightarrow> False) h
                     then None else Some NotFound),
     cCreateCM = (\<lambda>h d. None),
     cUpdateCM = (\<lambda>h d. None)\<rparr>"

section \<open>Volume-rebuild controller: what a pass touches\<close>

lemma set_update_subset: "set (AList.update k v al) \<subseteq> insert (k, v) (set al)"
  by (induction al) auto

lemma lvBody_out:
  assumes "lvBody cl fin cache ns pvm lv vm h = (vm', e, out)" and "c \<in> set out"
  shows "lvOwnerReferences lv = [] \<and> ContainsString (lvFinalizers lv) fin \<and>
         (c = DeleteLV lv \<or>
          c = PatchLV (lv\<lparr>lvFinalizers := SliceRemoveString (lvFinalizers lv) fin\<rparr>) lv)"
  using assms by (auto simp: lvBody_def Let_def split: if_splits option.splits)

lemma lvBody_vm:
  assumes "lvBody cl fin cache ns pvm lv vm h = (vm', e, out)" and "p \<in> set vm'"
  shows "p \<in> set vm \<or>
         (lvOwnerReferences lv = [] \<and>
          p = (lvName lv, \<lparr>keyNamespace = lvNameSpace lv, keyName = lvPvc lv\<rparr>))"
  using assms set_update_subset[of "lvName lv" "\<lparr>keyNamespace = lvNameSpace lv, keyName = lvPvc lv\<rparr>" vm]
  by (auto simp: lvBody_def Let_def split: if_splits option.splits)

lemma lvLoop_out:
  assumes "lvLoop cl fin cache ns pvm lvs vm h = (vm', e, out)" and "c \<in> set out"
  shows "\<exists>lv \<in> set lvs. lvOwnerReferences lv = [] \<and> ContainsString (lvFinalizers lv) fin \<and>
         (c = DeleteLV lv \<or>
          c = PatchLV (lv\<lparr>lvFinalizers := SliceRemoveString (lvFinalizers lv) fin\<rparr>) lv)"
  using assms
proof (induction lvs arbitrary: vm h vm' e out)
  case Nil
  then show ?case by simp
next
  case (Cons lv lvs)
  obtain vm1 e1 out1 where b: "lvBody cl fin cache ns pvm lv vm h = (vm1, e1, out1)"
    by (cases "lvBody cl fin cache ns pvm lv vm h") auto
  show ?case
  proof (cases e1)
    case (Some err)
    with b Cons.prems have "out = out1" by simp
    with b Cons.prems(2) lvBody_out show ?thesis by fastforce
  next
    case None
    obtain vm2 e2 out2 where l: "lvLoop cl fin cache ns pvm lvs vm1 (h @ out1) = (vm2, e2, out2)"
      by (cases "lvLoop cl fin cache ns pvm lvs vm1 (h @ out1)") auto
    with b None Cons.prems have "out = out1 @ out2" by simp
    with Cons.prems(2) consider "c \<in> set out1" | "c \<in> set out2" by auto
    then show ?thesis
    proof cases
      case 1
      with b lvBody_out show ?thesis by fastforce
    next
      case 2
      with Cons.IH[OF l] show ?thesis by auto
    qed
  qed
qed

lemma lvLoop_vm:
  assumes "lvLoop cl fin cache ns pvm lvs vm h = (vm', e, out)" and "p \<in> set vm'"
  shows "p \<in> set vm \<or>
         (\<exists>lv \<in> set lvs. lvOwnerReferences lv = [] \<and>
          p = (lvName lv, \<lparr>keyNamespace = lvNameSpace lv, keyName = lvPvc lv\<rparr>))"
  using assms
proof (induction lvs arbitrary: vm h vm' e out)
  case Nil
  then show ?case by simp
next
  case (Cons lv lvs)
  obtain vm1 e1 out1 where b: "lvBody cl fin cache ns pvm lv vm h = (vm1, e1, out1)"
    by (cases "lvBody cl fin cache ns pvm lv vm h") auto
  have step: "q \<in> set vm1 \<Longrightarrow> q \<in> set vm \<or>
         (lvOwnerReferences lv = [] \<and>
          q = (lvName lv, \<lparr>keyNamespace = lvNameSpace lv, keyName = lvPvc lv\<rparr>))" for q
    by (rule lvBody_vm[OF b])
  show ?case
  proof (cases e1)
    case (Some err)
    with b Cons.prems(1) have "vm' = vm1" by simp
    with Cons.prems(2) have "p \<in> set vm1" by simp
    from step[OF this] show ?thesis by auto
  next
    case None
    obtain vm2 e2 out2 where l: "lvLoop cl fin cache ns pvm lvs vm1 (h @ out1) = (vm2, e2, out2)"
      by (cases "lvLoop cl fin cache ns pvm lvs vm1 (h @ out1)") auto
    with b None Cons.prems(1) have "vm' = vm2" by simp
    with Cons.prems(2) have "p \<in> set vm2" by simp
    from Cons.IH[OF l this]
    show ?thesis
    proof
      assume "p \<in> set vm1"
      from step[OF this] show ?thesis by auto
    next
      assume "\<exists>lv \<in> set lvs. lvOwnerReferences lv = [] \<and>
          p = (lvName lv, \<lparr>keyNamespace = lvNameSpace lv, keyName = lvPvc lv\<rparr>)"
      then show ?thesis by auto
    qed
  qed
qed


lemma getNeed_out:
  assumes "getNeedRebuildVolume cl fin cache h = (vm, e, out)" and "clListLV cl h = Inr lvs"
    and "c \<in> set out"
  shows "c \<in> {ListLogicVolumes, ListNodes, ListPersistentVolumes} \<or>
         (\<exists>lv \<in> set lvs. lvOwnerReferences lv = [] \<and> ContainsString (lvFinalizers lv) fin \<and>
           (c = DeleteLV lv \<or>
            c = PatchLV (lv\<lparr>lvFinalizers := SliceRemoveString (lvFinalizers lv) fin\<rparr>) lv))"
proof (cases "c \<in> {ListLogicVolumes, ListNodes, ListPersistentVolumes}")
  case True
  then show ?thesis by simp
next
  case False
  with assms obtain ns pvm vm0 h0 out0 where
    "lvLoop cl fin cache ns pvm lvs vm0 h0 = (vm, e, out0)" and "c \<in> set out0"
    by (auto simp: getNeedRebuildVolume_def pvMap_def split: sum.splits if_splits prod.splits option.splits)
  from lvLoop_out[OF this] show ?thesis by simp
qed

lemma getNeed_vm:
  assumes "getNeedRebuildVolume cl fin cache h = (vm, e, out)" and "clListLV cl h = Inr lvs"
    and "p \<in> set vm"
  shows "\<exists>lv \<in> set lvs. lvOwnerReferences lv = [] \<and>
          p = (lvName lv, \<lparr>keyNamespace = lvNameSpace lv, keyName = lvPvc lv\<rparr>)"
proof -
  from assms obtain ns pvm h0 out0 where
    "lvLoop cl fin cache ns pvm lvs [] h0 = (vm, e, out0)"
    by (auto simp: getNeedRebuildVolume_def pvMap_def split: sum.splits if_splits prod.splits option.splits)
  from lvLoop_vm[OF this assms(3)] show ?thesis by simp
qed

lemma retry_create_out:
  assumes "UntilMaxRetry_from (\<lambda>h'. (g h', [CreatePVC p])) n iv err h = (r, out)"
  shows "set out \<subseteq> {CreatePVC p, Sleep iv}"
  using assms
proof (induction n arbitrary: err h r out)
  case 0
  then show ?case by simp
next
  case (Suc n)
  show ?case
  proof (cases "g h")
    case None
    with Suc.prems show ?thesis by auto
  next
    case (Some e)
    obtain r2 out2 where
      l: "UntilMaxRetry_from (\<lambda>h'. (g h', [CreatePVC p])) n iv (Some e) (h @ [CreatePVC p] @ [Sleep iv]) = (r2, out2)"
      by (cases "UntilMaxRetry_from (\<lambda>h'. (g h', [CreatePVC p])) n iv (Some e) (h @ [CreatePVC p] @ [Sleep iv])") auto
    with Some Suc.prems have "out = [CreatePVC p] @ [Sleep iv] @ out2" by simp
    with Suc.IH[OF l] show ?thesis by auto
  qed
qed

lemma rebuildVolume_out:
  assumes "rebuildVolume cl cache vm h = (r, cache', out)" and "c \<in> set out"
  shows "c = Sleep 10 \<or>
         (\<exists>(k, obj) \<in> set vm. c = GetPVC obj \<or>
            (\<exists>pvc. c = DeletePVC (newPvcOf obj pvc) \<or> c = CreatePVC (newPvcOf obj pvc)))"
  using assms
proof (induction vm arbitrary: cache h r cache' out)
  case Nil
  then show ?case by simp
next
  case (Cons a vm)
  obtain key obj where a: "a = (key, obj)" by (cases a) auto
  show ?case
  proof (cases "clGetPVC cl h obj")
    case (Inl e)
    obtain r2 c2 out2 where
      l: "rebuildVolume cl (cache(key \<mapsto> 0)) vm (h @ [GetPVC obj]) = (r2, c2, out2)"
      by (cases "rebuildVolume cl (cache(key \<mapsto> 0)) vm (h @ [GetPVC obj])") auto
    with Inl a Cons.prems(1) have "out = GetPVC obj # out2" by simp
    with Cons.prems(2) consider "c = GetPVC obj" | "c \<in> set out2" by auto
    then show ?thesis
    proof cases
      case 1
      with a show ?thesis by auto
    next
      case 2
      from Cons.IH[OF l 2] show ?thesis by auto
    qed
  next
    case (Inr pvc)
    define np where "np = newPvcOf obj pvc"
    define pre where "pre = [GetPVC obj, DeletePVC np]"
    obtain e1 out1 where
      u: "UntilMaxRetry (\<lambda>h'. (clCreatePVC cl h' np, [CreatePVC np])) 12 10 (h @ pre) = (e1, out1)"
      by (cases "UntilMaxRetry (\<lambda>h'. (clCreatePVC cl h' np, [CreatePVC np])) 12 10 (h @ pre)") auto
    then have o1: "set out1 \<subseteq> {CreatePVC np, Sleep 10}"
      unfolding UntilMaxRetry_def by (rule retry_create_out)
    have here: "x \<in> set (pre @ out1) \<Longrightarrow>
        x = Sleep 10 \<or> x = GetPVC obj \<or> x = DeletePVC np \<or> x = CreatePVC np" for x
      using o1 by (auto simp: pre_def)
    show ?thesis
    proof (cases e1)
      case (Some e)
      with Inr a u Cons.prems(1) have "out = pre @ out1"
        by (auto simp: Let_def np_def pre_def split: if_splits)
      with Cons.prems(2) here have
        "c = Sleep 10 \<or> c = GetPVC obj \<or> c = DeletePVC np \<or> c = CreatePVC np" by simp
      with a show ?thesis by (auto simp: np_def)
    next
      case None
      obtain r2 c2 out2 where
        l: "rebuildVolume cl cache vm (h @ pre @ out1) = (r2, c2, out2)"
        by (cases "rebuildVolume cl cache vm (h @ pre @ out1)") auto
      with None Inr a u Cons.prems(1) have "out = (pre @ out1) @ out2"
        by (auto simp: Let_def np_def pre_def)
      with Cons.prems(2) consider "c \<in> set (pre @ out1)" | "c \<in> set out2" by auto
      then show ?thesis
      proof cases
        case 1
        with here have
          "c = Sleep 10 \<or> c = GetPVC obj \<or> c = DeletePVC np \<or> c = CreatePVC np" by simp
        with a show ?thesis by (auto simp: np_def)
      next
        case 2
        from Cons.IH[OF l 2] show ?thesis by auto
      qed
    qed
  qed
qed


lemma ex_getNeed:
  "getNeedRebuildVolume exClient exFinalizer Map.empty [] =
     ([(''lv-lost'', \<lparr>keyNamespace = ''default'', keyName = ''pvc-lost''\<rparr>)], None,
      [ListLogicVolumes, ListNodes, ListPersistentVolumes,
       DeleteLV lvOrphan, PatchLV (lvOrphan\<lparr>lvFinalizers := [''kubernetes'']\<rparr>) lvOrphan,
       PatchLV (lvLost\<lparr>lvFinalizers := []\<rparr>) lvLost])"
  by (simp add: getNeedRebuildVolume_def exClient_def pvMap_def lvBody_def lvOwned_def
      lvOrphan_def lvBare_def lvLost_def pvLost_def ContainsString_def SliceRemoveString_def
      exFinalizer_def Let_def)


lemma ex_rebuild:
  "rebuildVolume exClient Map.empty
     [(''lv-lost'', \<lparr>keyNamespace = ''default'', keyName = ''pvc-lost''\<rparr>)] h =
   (Done, Map.empty,
    [GetPVC \<lparr>keyNamespace = ''default'', keyName = ''pvc-lost''\<rparr>,
     DeletePVC (pvcLost\<lparr>pvcVolumeName := [], pvcPhase := []\<rparr>),
     CreatePVC (pvcLost\<lparr>pvcVolumeName := [], pvcPhase := []\<rparr>)])"
  by (simp add: exClient_def UntilMaxRetry_def eval_nat_numeral newPvcOf_def pvcLost_def Let_def)

lemma ex_pass:
  "resourceReconcile exClient exFinalizer Map.empty [] =
   (Done, Map.empty,
    [ListLogicVolumes, ListNodes, ListPersistentVolumes,
     DeleteLV lvOrphan, PatchLV (lvOrphan\<lparr>lvFinalizers := [''kubernetes'']\<rparr>) lvOrphan,
     PatchLV (lvLost\<lparr>lvFinalizers := []\<rparr>) lvLost,
     GetPVC \<lparr>keyNamespace = ''default'', keyName = ''pvc-lost''\<rparr>,
     DeletePVC (pvcLost\<lparr>pvcVolumeName := [], pvcPhase := []\<rparr>),
     CreatePVC (pvcLost\<lparr>pvcVolumeName := [], pvcPhase := []\<rparr>)])"
  by (simp add: resourceReconcile_def ex_getNeed ex_rebuild del: rebuildVolume.simps)

lemma reconcile_out:
  assumes "c \<in> set (snd (snd (resourceReconcile cl fin cache h)))"
  shows "c \<in> set (snd (snd (getNeedRebuildVolume cl fin cache h))) \<or>
         (\<exists>h'. c \<in> set (snd (snd (rebuildVolume cl cache
                   (fst (getNeedRebuildVolume cl fin cache h)) h'))))"
proof -
  obtain vm e out where g: "getNeedRebuildVolume cl fin cache h = (vm, e, out)"
    by (cases "getNeedRebuildVolume cl fin cache h") auto
  show ?thesis
  proof (cases e)
    case (Some err)
    with g assms show ?thesis by (simp add: resourceReconcile_def)
  next
    case None
    obtain r c2 out2 where l: "rebuildVolume cl cache vm (h @ out) = (r, c2, out2)"
      by (cases "rebuildVolume cl cache vm (h @ out)") auto
    with g None assms have "c \<in> set out \<or> c \<in> set out2"
      by (simp add: resourceReconcile_def)
    then show ?thesis
    proof
      assume "c \<in> set out"
      with g show ?thesis by simp
    next
      assume "c \<in> set out2"
      with l have "c \<in> set (snd (snd (rebuildVolume cl cache vm (h @ out))))" by simp
      with g show ?thesis by auto
    qed
  qed
qed

text \<open>Claim C1. Take a pass of the volume-rebuild controller whose listing of the
  LogicVolumes has pairwise different names, and a listed LogicVolume with a non-empty
  owner-reference set. The pass issues no delete and no patch for its name, its name is
  not a key of the candidate map, and every claim the pass deletes or creates is the claim
  of another listed LogicVolume, one without owner references.\<close>

theorem owned_logicvolume_untouched:
  assumes lst: "clListLV cl h = Inr lvs"
    and dist: "distinct (map lvName lvs)"
    and mem: "lv \<in> set lvs"
    and own: "lvOwnerReferences lv \<noteq> []"
  shows "(\<forall>x. DeleteLV x \<in> set (snd (snd (resourceReconcile cl fin cache h)))
            \<longrightarrow> lvName x \<noteq> lvName lv) \<and>
         (\<forall>y x. PatchLV y x \<in> set (snd (snd (resourceReconcile cl fin cache h)))
            \<longrightarrow> lvName y \<noteq> lvName lv \<and> lvName x \<noteq> lvName lv) \<and>
         lvName lv \<notin> fst ` set (fst (getNeedRebuildVolume cl fin cache h)) \<and>
         (\<forall>p. DeletePVC p \<in> set (snd (snd (resourceReconcile cl fin cache h))) \<or>
              CreatePVC p \<in> set (snd (snd (resourceReconcile cl fin cache h)))
            \<longrightarrow> (\<exists>lv' \<in> set lvs. lvOwnerReferences lv' = [] \<and> lvName lv' \<noteq> lvName lv \<and>
                   pvcNamespace p = lvNameSpace lv' \<and> pvcName p = lvPvc lv'))"
proof -
  obtain vm e out where g: "getNeedRebuildVolume cl fin cache h = (vm, e, out)"
    by (cases "getNeedRebuildVolume cl fin cache h") auto
  have other: "lvName lv' \<noteq> lvName lv" if "lv' \<in> set lvs" "lvOwnerReferences lv' = []" for lv'
  proof
    assume "lvName lv' = lvName lv"
    with dist mem that(1) have "lv' = lv" by (auto simp: distinct_map dest: inj_onD)
    with own that(2) show False by simp
  qed
  have lvcalls: "\<exists>lv' \<in> set lvs. lvOwnerReferences lv' = [] \<and>
           (c = DeleteLV lv' \<or>
            c = PatchLV (lv'\<lparr>lvFinalizers := SliceRemoveString (lvFinalizers lv') fin\<rparr>) lv')"
    if c: "c \<in> set (snd (snd (resourceReconcile cl fin cache h)))"
      and k: "(\<exists>x. c = DeleteLV x) \<or> (\<exists>y x. c = PatchLV y x)" for c
  proof -
    from reconcile_out[OF c] show ?thesis
    proof
      assume "c \<in> set (snd (snd (getNeedRebuildVolume cl fin cache h)))"
      with g have "c \<in> set out" by simp
      from getNeed_out[OF g lst this] k show ?thesis by auto
    next
      assume "\<exists>h'. c \<in> set (snd (snd (rebuildVolume cl cache
                   (fst (getNeedRebuildVolume cl fin cache h)) h')))"
      then obtain h' where "c \<in> set (snd (snd (rebuildVolume cl cache vm h')))"
        using g by auto
      then have "c = Sleep 10 \<or>
         (\<exists>(k, obj) \<in> set vm. c = GetPVC obj \<or>
            (\<exists>pvc. c = DeletePVC (newPvcOf obj pvc) \<or> c = CreatePVC (newPvcOf obj pvc)))"
        by (intro rebuildVolume_out[of cl cache vm h']) (auto simp: prod_eq_iff)
      with k show ?thesis by auto
    qed
  qed
  have del: "\<forall>x. DeleteLV x \<in> set (snd (snd (resourceReconcile cl fin cache h)))
            \<longrightarrow> lvName x \<noteq> lvName lv"
  proof (intro allI impI)
    fix x assume "DeleteLV x \<in> set (snd (snd (resourceReconcile cl fin cache h)))"
    from lvcalls[OF this] obtain lv' where "lv' \<in> set lvs" "lvOwnerReferences lv' = []" "x = lv'"
      by auto
    with other show "lvName x \<noteq> lvName lv" by simp
  qed
  have pat: "\<forall>y x. PatchLV y x \<in> set (snd (snd (resourceReconcile cl fin cache h)))
            \<longrightarrow> lvName y \<noteq> lvName lv \<and> lvName x \<noteq> lvName lv"
  proof (intro allI impI)
    fix y x assume "PatchLV y x \<in> set (snd (snd (resourceReconcile cl fin cache h)))"
    from lvcalls[OF this] obtain lv' where "lv' \<in> set lvs" "lvOwnerReferences lv' = []"
      "x = lv'" "y = lv'\<lparr>lvFinalizers := SliceRemoveString (lvFinalizers lv') fin\<rparr>"
      by auto
    with other show "lvName y \<noteq> lvName lv \<and> lvName x \<noteq> lvName lv" by simp
  qed
  have cand: "lvName lv \<notin> fst ` set (fst (getNeedRebuildVolume cl fin cache h))"
  proof
    assume "lvName lv \<in> fst ` set (fst (getNeedRebuildVolume cl fin cache h))"
    with g obtain p where p: "p \<in> set vm" "fst p = lvName lv" by auto
    from getNeed_vm[OF g lst p(1)] obtain lv' where
      "lv' \<in> set lvs" "lvOwnerReferences lv' = []" "fst p = lvName lv'" by auto
    with other p(2) show False by simp
  qed
  have pvc: "\<forall>p. DeletePVC p \<in> set (snd (snd (resourceReconcile cl fin cache h))) \<or>
              CreatePVC p \<in> set (snd (snd (resourceReconcile cl fin cache h)))
            \<longrightarrow> (\<exists>lv' \<in> set lvs. lvOwnerReferences lv' = [] \<and> lvName lv' \<noteq> lvName lv \<and>
                   pvcNamespace p = lvNameSpace lv' \<and> pvcName p = lvPvc lv')"
  proof (intro allI impI)
    fix p
    assume a: "DeletePVC p \<in> set (snd (snd (resourceReconcile cl fin cache h))) \<or>
              CreatePVC p \<in> set (snd (snd (resourceReconcile cl fin cache h)))"
    then obtain c where c: "c \<in> set (snd (snd (resourceReconcile cl fin cache h)))"
      "c = DeletePVC p \<or> c = CreatePVC p" by auto
    from reconcile_out[OF c(1)]
    have "\<exists>h'. c \<in> set (snd (snd (rebuildVolume cl cache vm h')))"
    proof
      assume "c \<in> set (snd (snd (getNeedRebuildVolume cl fin cache h)))"
      with g have "c \<in> set out" by simp
      from getNeed_out[OF g lst this] c(2) show ?thesis by auto
    next
      assume "\<exists>h'. c \<in> set (snd (snd (rebuildVolume cl cache
                   (fst (getNeedRebuildVolume cl fin cache h)) h')))"
      with g show ?thesis by simp
    qed
    then obtain h' where "c \<in> set (snd (snd (rebuildVolume cl cache vm h')))" by auto
    then have "c = Sleep 10 \<or>
         (\<exists>(k, obj) \<in> set vm. c = GetPVC obj \<or>
            (\<exists>pvc. c = DeletePVC (newPvcOf obj pvc) \<or> c = CreatePVC (newPvcOf obj pvc)))"
      by (intro rebuildVolume_out[of cl cache vm h']) (auto simp: prod_eq_iff)
    with c(2) obtain k obj pvc where ko: "(k, obj) \<in> set vm" "p = newPvcOf obj pvc" by auto
    from getNeed_vm[OF g lst ko(1)] obtain lv' where
      "lv' \<in> set lvs" "lvOwnerReferences lv' = []"
      "obj = \<lparr>keyNamespace = lvNameSpace lv', keyName = lvPvc lv'\<rparr>" by auto
    with ko(2) other show "\<exists>lv' \<in> set lvs. lvOwnerReferences lv' = [] \<and> lvName lv' \<noteq> lvName lv \<and>
                   pvcNamespace p = lvNameSpace lv' \<and> pvcName p = lvPvc lv'"
      by (auto simp: newPvcOf_def)
  qed
  from del pat cand pvc show ?thesis by blast
qed

text \<open>The pass over the example cluster: \<open>lvOwned\<close> has an owner reference and is
  listed first.\<close>

theorem owned_logicvolume_untouched_witness:
  "clListLV exClient [] = Inr [lvOwned, lvOrphan, lvBare, lvLost] \<and>
   distinct (map lvName [lvOwned, lvOrphan, lvBare, lvLost]) \<and>
   lvOwned \<in> set [lvOwned, lvOrphan, lvBare, lvLost] \<and>
   lvOwnerReferences lvOwned \<noteq> [] \<and>
   DeleteLV lvOwned \<notin> set (snd (snd (resourceReconcile exClient exFinalizer Map.empty []))) \<and>
   PatchLV (lvOwned\<lparr>lvFinalizers := []\<rparr>) lvOwned
     \<notin> set (snd (snd (resourceReconcile exClient exFinalizer Map.empty []))) \<and>
   lvName lvOwned \<notin> fst ` set (fst (getNeedRebuildVolume exClient exFinalizer Map.empty []))"
proof -
  have h1: "clListLV exClient [] = Inr [lvOwned, lvOrphan, lvBare, lvLost]"
    by (simp add: exClient_def)
  have h2: "distinct (map lvName [lvOwned, lvOrphan, lvBare, lvLost])"
    by (simp add: lvOwned_def lvOrphan_def lvBare_def lvLost_def)
  have h3: "lvOwned \<in> set [lvOwned, lvOrphan, lvBare, lvLost]" by simp
  have h4: "lvOwnerReferences lvOwned \<noteq> []" by (simp add: lvOwned_def)
  from owned_logicvolume_untouched[OF h1 h2 h3 h4, of exFinalizer Map.empty] h1 h2 h3 h4
  show ?thesis by blast
qed

section \<open>Volume-rebuild controller: the finalizer patch\<close>

lemma getNeed_patch:
  assumes "getNeedRebuildVolume cl fin cache h = (vm, e, out)" and "PatchLV lv2 lv \<in> set out"
  shows "lvOwnerReferences lv = [] \<and> ContainsString (lvFinalizers lv) fin \<and>
         lv2 = lv\<lparr>lvFinalizers := SliceRemoveString (lvFinalizers lv) fin\<rparr>"
proof -
  from assms obtain lvs ns pvm vm0 h0 out0 where
    "lvLoop cl fin cache ns pvm lvs vm0 h0 = (vm, e, out0)" and "PatchLV lv2 lv \<in> set out0"
    by (auto simp: getNeedRebuildVolume_def pvMap_def split: sum.splits if_splits prod.splits option.splits)
  from lvLoop_out[OF this] show ?thesis by auto
qed

lemma count_list_filter_neq:
  "t \<noteq> s \<Longrightarrow> count_list (filter (\<lambda>item. item \<noteq> s) xs) t = count_list xs t"
  by (induction xs) auto

text \<open>Claim C9. Every patch of a LogicVolume that a pass of the volume-rebuild controller
  issues sends the base object with only its finalizers changed: the rebuild finalizer
  token, which the base has, is gone, and every other token stays, as often as before and
  in the same order.\<close>

theorem finalizer_patch_frame:
  assumes "PatchLV lv2 lv \<in> set (snd (snd (resourceReconcile cl fin cache h)))"
  shows "lv2 = lv\<lparr>lvFinalizers := lvFinalizers lv2\<rparr> \<and>
         fin \<in> set (lvFinalizers lv) \<and>
         fin \<notin> set (lvFinalizers lv2) \<and>
         lvFinalizers lv2 = filter (\<lambda>t. t \<noteq> fin) (lvFinalizers lv) \<and>
         (\<forall>t. t \<noteq> fin \<longrightarrow> count_list (lvFinalizers lv2) t = count_list (lvFinalizers lv) t)"
proof -
  obtain vm e out where g: "getNeedRebuildVolume cl fin cache h = (vm, e, out)"
    by (cases "getNeedRebuildVolume cl fin cache h") auto
  from reconcile_out[OF assms] have "PatchLV lv2 lv \<in> set out"
  proof
    assume "PatchLV lv2 lv \<in> set (snd (snd (getNeedRebuildVolume cl fin cache h)))"
    with g show ?thesis by simp
  next
    assume "\<exists>h'. PatchLV lv2 lv \<in> set (snd (snd (rebuildVolume cl cache
                   (fst (getNeedRebuildVolume cl fin cache h)) h')))"
    then obtain h' where "PatchLV lv2 lv \<in> set (snd (snd (rebuildVolume cl cache vm h')))"
      using g by auto
    then have "PatchLV lv2 lv = Sleep 10 \<or>
         (\<exists>(k, obj) \<in> set vm. PatchLV lv2 lv = GetPVC obj \<or>
            (\<exists>pvc. PatchLV lv2 lv = DeletePVC (newPvcOf obj pvc) \<or>
                   PatchLV lv2 lv = CreatePVC (newPvcOf obj pvc)))"
      by (intro rebuildVolume_out[of cl cache vm h']) (auto simp: prod_eq_iff)
    then show ?thesis by auto
  qed
  from getNeed_patch[OF g this]
  have c: "ContainsString (lvFinalizers lv) fin"
    and l: "lv2 = lv\<lparr>lvFinalizers := SliceRemoveString (lvFinalizers lv) fin\<rparr>" by auto
  from l have f: "lvFinalizers lv2 = filter (\<lambda>t. t \<noteq> fin) (lvFinalizers lv)"
    by (simp add: SliceRemoveString_def)
  from l have "lv2 = lv\<lparr>lvFinalizers := lvFinalizers lv2\<rparr>" by simp
  moreover from c have "fin \<in> set (lvFinalizers lv)" by (simp add: ContainsString_def)
  moreover from f have "fin \<notin> set (lvFinalizers lv2)" by simp
  moreover from f have "\<forall>t. t \<noteq> fin \<longrightarrow> count_list (lvFinalizers lv2) t = count_list (lvFinalizers lv) t"
    by (simp add: count_list_filter_neq)
  ultimately show ?thesis using f by blast
qed

text \<open>In the example pass the patch of \<open>lvOrphan\<close> keeps the token \<open>kubernetes\<close>.\<close>

theorem finalizer_patch_frame_witness:
  "PatchLV (lvOrphan\<lparr>lvFinalizers := [''kubernetes'']\<rparr>) lvOrphan
     \<in> set (snd (snd (resourceReconcile exClient exFinalizer Map.empty []))) \<and>
   lvFinalizers lvOrphan = [exFinalizer, ''kubernetes''] \<and>
   lvFinalizers (lvOrphan\<lparr>lvFinalizers := [''kubernetes'']\<rparr>) =
     filter (\<lambda>t. t \<noteq> exFinalizer) (lvFinalizers lvOrphan) \<and>
   count_list (lvFinalizers (lvOrphan\<lparr>lvFinalizers := [''kubernetes'']\<rparr>)) ''kubernetes'' =
     count_list (lvFinalizers lvOrphan) ''kubernetes''"
proof -
  have h: "PatchLV (lvOrphan\<lparr>lvFinalizers := [''kubernetes'']\<rparr>) lvOrphan
     \<in> set (snd (snd (resourceReconcile exClient exFinalizer Map.empty [])))"
    by (simp add: ex_pass)
  have n: "''kubernetes'' \<noteq> exFinalizer" by (simp add: exFinalizer_def)
  have "lvFinalizers lvOrphan = [exFinalizer, ''kubernetes'']" by (simp add: lvOrphan_def)
  with finalizer_patch_frame[OF h] h n show ?thesis by blast
qed

section \<open>Volume-rebuild controller: orphaned LogicVolumes\<close>

lemma pvNames_None: "pvNames pvs m k = None \<longleftrightarrow> m k = None \<and> k \<notin> pvName ` set pvs"
  by (induction pvs arbitrary: m) auto

lemma lvLoop_append:
  "lvLoop cl fin cache ns pvm (xs @ ys) vm h =
     (case lvLoop cl fin cache ns pvm xs vm h of
        (vm1, Some e, out1) \<Rightarrow> (vm1, Some e, out1)
      | (vm1, None, out1) \<Rightarrow>
          (case lvLoop cl fin cache ns pvm ys vm1 (h @ out1) of
             (vm2, e, out2) \<Rightarrow> (vm2, e, out1 @ out2)))"
proof (induction xs arbitrary: vm h)
  case Nil
  show ?case by (simp split: prod.splits)
next
  case (Cons x xs)
  show ?case
    by (simp add: Cons.IH split: prod.splits option.splits)
qed

lemma lvBody_orphan:
  assumes "lvOwnerReferences lv = []" and "lvStatus lv \<noteq> []" and "pvm (lvName lv) = None"
  shows "snd (snd (lvBody cl fin cache ns pvm lv vm h)) =
     (if ContainsString (lvFinalizers lv) fin
      then (if clDeleteLV cl h lv = None
            then [DeleteLV lv,
                  PatchLV (lv\<lparr>lvFinalizers := SliceRemoveString (lvFinalizers lv) fin\<rparr>) lv]
            else [DeleteLV lv])
      else [])"
  using assms by (simp add: lvBody_def Let_def split: option.splits)

text \<open>Claim C2, as amended. Take a LogicVolume of the listing with empty owner
  references, a non-empty status and no PersistentVolume of its name, which the pass
  reaches (the LogicVolumes listed before it ended without an error). When it carries the
  rebuild finalizer token, the pass issues the delete first and, when the delete succeeded,
  the patch against the unchanged object that strips the token, right after the calls for
  the LogicVolumes before it. When it does not carry the token, the pass issues neither a
  delete nor a patch for it.\<close>

theorem orphan_delete_then_strip:
  assumes lst: "clListLV cl h = Inr (pre @ lv # post)"
    and nodes: "clListNode cl (h @ [ListLogicVolumes]) = Inr nl"
    and pvs: "clListPV cl (h @ [ListLogicVolumes, ListNodes]) = Inr pvs"
    and own: "lvOwnerReferences lv = []"
    and st: "lvStatus lv \<noteq> []"
    and nopv: "lvName lv \<notin> pvName ` set pvs"
    and reach: "lvLoop cl fin cache (nodeStatusOf nl Map.empty) (pvNames pvs Map.empty) pre []
                  (h @ [ListLogicVolumes, ListNodes, ListPersistentVolumes]) = (vm1, None, out1)"
  shows "(\<exists>rest. snd (snd (getNeedRebuildVolume cl fin cache h)) =
           [ListLogicVolumes, ListNodes, ListPersistentVolumes] @ out1 @
           (if ContainsString (lvFinalizers lv) fin
            then (if clDeleteLV cl
                       (h @ [ListLogicVolumes, ListNodes, ListPersistentVolumes] @ out1) lv = None
                  then [DeleteLV lv,
                        PatchLV (lv\<lparr>lvFinalizers := SliceRemoveString (lvFinalizers lv) fin\<rparr>) lv]
                  else [DeleteLV lv])
            else []) @ rest) \<and>
         (\<not> ContainsString (lvFinalizers lv) fin \<longrightarrow>
            DeleteLV lv \<notin> set (snd (snd (getNeedRebuildVolume cl fin cache h))) \<and>
            (\<forall>lv2. PatchLV lv2 lv \<notin> set (snd (snd (getNeedRebuildVolume cl fin cache h)))))"
proof -
  define ns where "ns = nodeStatusOf nl Map.empty"
  define pvm where "pvm = pvNames pvs Map.empty"
  define h0 where "h0 = h @ [ListLogicVolumes, ListNodes, ListPersistentVolumes]"
  from nopv have none: "pvm (lvName lv) = None" by (simp add: pvm_def pvNames_None)
  obtain vm2 e2 out2 where b: "lvBody cl fin cache ns pvm lv vm1 (h0 @ out1) = (vm2, e2, out2)"
    by (cases "lvBody cl fin cache ns pvm lv vm1 (h0 @ out1)") auto
  from lvBody_orphan[of lv pvm cl fin cache ns vm1 "h0 @ out1"] own st none b
  have o2: "out2 = (if ContainsString (lvFinalizers lv) fin
      then (if clDeleteLV cl (h0 @ out1) lv = None
            then [DeleteLV lv,
                  PatchLV (lv\<lparr>lvFinalizers := SliceRemoveString (lvFinalizers lv) fin\<rparr>) lv]
            else [DeleteLV lv])
      else [])" by simp
  from reach have r: "lvLoop cl fin cache ns pvm pre [] h0 = (vm1, None, out1)"
    by (simp add: ns_def pvm_def h0_def)
  have "\<exists>rest. snd (snd (lvLoop cl fin cache ns pvm (lv # post) vm1 (h0 @ out1))) = out2 @ rest"
    using b by (cases e2) (auto split: prod.splits)
  then obtain rest where
    "snd (snd (lvLoop cl fin cache ns pvm (lv # post) vm1 (h0 @ out1))) = out2 @ rest" by auto
  with r have l: "snd (snd (lvLoop cl fin cache ns pvm (pre @ lv # post) [] h0)) = out1 @ out2 @ rest"
    by (cases "lvLoop cl fin cache ns pvm (lv # post) vm1 (h0 @ out1)")
       (simp add: lvLoop_append del: lvLoop.simps)
  have "snd (snd (getNeedRebuildVolume cl fin cache h)) =
          [ListLogicVolumes, ListNodes, ListPersistentVolumes] @
          snd (snd (lvLoop cl fin cache ns pvm (pre @ lv # post) [] h0))"
    using lst nodes pvs
    by (simp add: getNeedRebuildVolume_def pvMap_def ns_def pvm_def h0_def split: prod.splits)
  with l o2 have first: "\<exists>rest. snd (snd (getNeedRebuildVolume cl fin cache h)) =
           [ListLogicVolumes, ListNodes, ListPersistentVolumes] @ out1 @
           (if ContainsString (lvFinalizers lv) fin
            then (if clDeleteLV cl
                       (h @ [ListLogicVolumes, ListNodes, ListPersistentVolumes] @ out1) lv = None
                  then [DeleteLV lv,
                        PatchLV (lv\<lparr>lvFinalizers := SliceRemoveString (lvFinalizers lv) fin\<rparr>) lv]
                  else [DeleteLV lv])
            else []) @ rest"
    unfolding h0_def by (intro exI[of _ rest]) simp
  obtain vm e out where g: "getNeedRebuildVolume cl fin cache h = (vm, e, out)"
    by (cases "getNeedRebuildVolume cl fin cache h") auto
  have second: "DeleteLV lv \<notin> set (snd (snd (getNeedRebuildVolume cl fin cache h))) \<and>
            (\<forall>lv2. PatchLV lv2 lv \<notin> set (snd (snd (getNeedRebuildVolume cl fin cache h))))"
    if bare: "\<not> ContainsString (lvFinalizers lv) fin"
  proof -
    have "c \<noteq> DeleteLV lv \<and> (\<forall>lv2. c \<noteq> PatchLV lv2 lv)" if "c \<in> set out" for c
      using getNeed_out[OF g lst that] bare by auto
    with g show ?thesis by auto
  qed
  from first second show ?thesis by blast
qed

text \<open>In the example pass \<open>lvOrphan\<close> is reached after \<open>lvOwned\<close>: the delete is
  the fourth call, the patch the fifth.\<close>

theorem orphan_delete_then_strip_witness:
  "clListLV exClient [] = Inr ([lvOwned] @ lvOrphan # [lvBare, lvLost]) \<and>
   lvOwnerReferences lvOrphan = [] \<and> lvStatus lvOrphan \<noteq> [] \<and>
   lvName lvOrphan \<notin> pvName ` set [pvLost] \<and>
   ContainsString (lvFinalizers lvOrphan) exFinalizer \<and>
   take 5 (snd (snd (getNeedRebuildVolume exClient exFinalizer Map.empty []))) =
     [ListLogicVolumes, ListNodes, ListPersistentVolumes, DeleteLV lvOrphan,
      PatchLV (lvOrphan\<lparr>lvFinalizers := SliceRemoveString (lvFinalizers lvOrphan) exFinalizer\<rparr>)
        lvOrphan]"
proof -
  have h1: "clListLV exClient [] = Inr ([lvOwned] @ lvOrphan # [lvBare, lvLost])"
    by (simp add: exClient_def)
  have h2: "clListNode exClient ([] @ [ListLogicVolumes]) = Inr []" by (simp add: exClient_def)
  have h3: "clListPV exClient ([] @ [ListLogicVolumes, ListNodes]) = Inr [pvLost]"
    by (simp add: exClient_def)
  have h4: "lvOwnerReferences lvOrphan = []" by (simp add: lvOrphan_def)
  have h5: "lvStatus lvOrphan \<noteq> []" by (simp add: lvOrphan_def)
  have h6: "lvName lvOrphan \<notin> pvName ` set [pvLost]" by (simp add: lvOrphan_def pvLost_def)
  have h7: "lvLoop exClient exFinalizer Map.empty (nodeStatusOf [] Map.empty)
              (pvNames [pvLost] Map.empty) [lvOwned] []
              ([] @ [ListLogicVolumes, ListNodes, ListPersistentVolumes]) = ([], None, [])"
    by (simp add: lvBody_def lvOwned_def)
  have h8: "ContainsString (lvFinalizers lvOrphan) exFinalizer"
    by (simp add: ContainsString_def lvOrphan_def)
  have h9: "clDeleteLV exClient x lvOrphan = None" for x by (simp add: exClient_def)
  from conjunct1[OF orphan_delete_then_strip[OF h1 h2 h3 h4 h5 h6 h7]] h8 h9
  have "take 5 (snd (snd (getNeedRebuildVolume exClient exFinalizer Map.empty []))) =
     [ListLogicVolumes, ListNodes, ListPersistentVolumes, DeleteLV lvOrphan,
      PatchLV (lvOrphan\<lparr>lvFinalizers := SliceRemoveString (lvFinalizers lvOrphan) exFinalizer\<rparr>)
        lvOrphan]" by auto
  with h1 h4 h5 h6 h8 show ?thesis by blast
qed

text \<open>Claim C2 as the specification words it (the patch first, the delete after it) fails
  in the example pass: for \<open>lvOrphan\<close> no delete follows the patch, and \<open>lvBare\<close>,
  orphaned and without the token, is not deleted at all.\<close>

theorem strip_then_delete_counterexample:
  "\<not> stripThenDelete exFinalizer lvOrphan
        (snd (snd (resourceReconcile exClient exFinalizer Map.empty []))) \<and>
   \<not> stripThenDelete exFinalizer lvBare
        (snd (snd (resourceReconcile exClient exFinalizer Map.empty [])))"
  unfolding ex_pass snd_conv
  by (simp add: stripThenDelete_def ContainsString_def SliceRemoveString_def
      lvOrphan_def lvBare_def lvLost_def exFinalizer_def)

section \<open>Volume-rebuild controller: the bounded create retry\<close>

lemma retry_failed_out:
  assumes "fst (UntilMaxRetry_from (\<lambda>h'. (g h', [c])) n iv err h) \<noteq> None"
  shows "snd (UntilMaxRetry_from (\<lambda>h'. (g h', [c])) n iv err h) =
           concat (replicate n [c, Sleep iv])"
  using assms
proof (induction n arbitrary: err h)
  case 0
  then show ?case by simp
next
  case (Suc n)
  show ?case
  proof (cases "g h")
    case None
    with Suc.prems show ?thesis by simp
  next
    case (Some e)
    obtain r2 out2 where
      l: "UntilMaxRetry_from (\<lambda>h'. (g h', [c])) n iv (Some e) (h @ [c] @ [Sleep iv]) = (r2, out2)"
      by (cases "UntilMaxRetry_from (\<lambda>h'. (g h', [c])) n iv (Some e) (h @ [c] @ [Sleep iv])") auto
    with Some Suc.prems have "r2 \<noteq> None" by simp
    with l Suc.IH[of "Some e" "h @ [c] @ [Sleep iv]"]
    have "out2 = concat (replicate n [c, Sleep iv])" by simp
    with l Some show ?thesis by simp
  qed
qed

lemma rebuildVolume_append:
  "rebuildVolume cl cache (xs @ ys) h =
     (case rebuildVolume cl cache xs h of
        (Done, c1, o1) \<Rightarrow>
          (case rebuildVolume cl c1 ys (h @ o1) of (r, c2, o2) \<Rightarrow> (r, c2, o1 @ o2))
      | (Failed e, c1, o1) \<Rightarrow> (Failed e, c1, o1)
      | (Panic, c1, o1) \<Rightarrow> (Panic, c1, o1))"
proof (induction xs arbitrary: cache h)
  case Nil
  show ?case by (simp split: prod.splits)
next
  case (Cons a xs)
  obtain key obj where a: "a = (key, obj)" by (cases a) auto
  show ?case
  proof (cases "clGetPVC cl h obj")
    case (Inl e)
    define c0 where "c0 = cache(key \<mapsto> 0)"
    obtain r1 c1 o1 where
      l: "rebuildVolume cl c0 xs (h @ [GetPVC obj]) = (r1, c1, o1)"
      by (cases "rebuildVolume cl c0 xs (h @ [GetPVC obj])") auto
    obtain r2 c2 o2 where
      m: "rebuildVolume cl c1 ys (h @ GetPVC obj # o1) = (r2, c2, o2)"
      by (cases "rebuildVolume cl c1 ys (h @ GetPVC obj # o1)") auto
    have step: "rebuildVolume cl cache ((key, obj) # zs) h =
        (case rebuildVolume cl c0 zs (h @ [GetPVC obj]) of
           (r, cache', out) \<Rightarrow> (r, cache', GetPVC obj # out))" for zs
      using Inl by (simp add: c0_def)
    have "rebuildVolume cl c0 (xs @ ys) (h @ [GetPVC obj]) =
        (case r1 of Done \<Rightarrow> (r2, c2, o1 @ o2) | Failed e \<Rightarrow> (Failed e, c1, o1)
         | Panic \<Rightarrow> (Panic, c1, o1))"
      using l m by (simp add: Cons.IH[of c0 "h @ [GetPVC obj]"] split: outcome.splits)
    then show ?thesis
      unfolding a using l m
      by (cases r1) (simp_all only: append_Cons step, simp_all)
  next
    case (Inr pvc)
    define np where "np = newPvcOf obj pvc"
    define pre where "pre = [GetPVC obj, DeletePVC np]"
    obtain e1 out1 where
      u: "UntilMaxRetry (\<lambda>h'. (clCreatePVC cl h' np, [CreatePVC np])) 12 10 (h @ pre) = (e1, out1)"
      by (cases "UntilMaxRetry (\<lambda>h'. (clCreatePVC cl h' np, [CreatePVC np])) 12 10 (h @ pre)") auto
    show ?thesis
    proof (cases e1)
      case (Some e)
      with Inr u show ?thesis
        unfolding a by (simp add: Let_def np_def[symmetric] pre_def[symmetric])
    next
      case None
      obtain r1 c1 o1 where
        l: "rebuildVolume cl cache xs (h @ pre @ out1) = (r1, c1, o1)"
        by (cases "rebuildVolume cl cache xs (h @ pre @ out1)") auto
      obtain r2 c2 o2 where
        m: "rebuildVolume cl c1 ys (h @ pre @ out1 @ o1) = (r2, c2, o2)"
        by (cases "rebuildVolume cl c1 ys (h @ pre @ out1 @ o1)") auto
      from None Inr u l m show ?thesis
        unfolding a
        by (cases r1) (simp_all add: Cons.IH Let_def np_def[symmetric] pre_def[symmetric])
    qed
  qed
qed

lemma rebuildVolume_exhausted:
  assumes get: "clGetPVC cl h obj = Inr pvc"
    and exh: "fst (UntilMaxRetry (\<lambda>h'. (clCreatePVC cl h' (newPvcOf obj pvc),
                                         [CreatePVC (newPvcOf obj pvc)])) 12 10
                    (h @ [GetPVC obj, DeletePVC (newPvcOf obj pvc)])) = Some e"
  shows "rebuildVolume cl cache ((key, obj) # rest) h =
           (if pvcStorageClassName pvc = None \<or> pvcVolumeMode pvc = None then Panic
            else Failed e,
            cache,
            [GetPVC obj, DeletePVC (newPvcOf obj pvc)] @
            concat (replicate 12 [CreatePVC (newPvcOf obj pvc), Sleep 10]))"
proof -
  define np where "np = newPvcOf obj pvc"
  define f where "f = (\<lambda>h'. (clCreatePVC cl h' np, [CreatePVC np]))"
  define hh where "hh = h @ [GetPVC obj, DeletePVC np]"
  from exh have e: "fst (UntilMaxRetry f 12 10 hh) = Some e"
    by (simp add: f_def np_def hh_def)
  then have "fst (UntilMaxRetry_from f 12 10 None hh) \<noteq> None"
    by (simp add: UntilMaxRetry_def)
  then have "snd (UntilMaxRetry_from f 12 10 None hh) = concat (replicate 12 [CreatePVC np, Sleep 10])"
    unfolding f_def by (rule retry_failed_out)
  with e have u: "UntilMaxRetry f 12 10 hh = (Some e, concat (replicate 12 [CreatePVC np, Sleep 10]))"
    by (simp add: UntilMaxRetry_def prod_eq_iff)
  have sc: "pvcStorageClassName np = pvcStorageClassName pvc" "pvcVolumeMode np = pvcVolumeMode pvc"
    by (simp_all add: np_def newPvcOf_def)
  show ?thesis
    using get u sc
    by (simp add: Let_def np_def[symmetric] f_def[symmetric] hh_def[symmetric])
qed


text \<open>Claim C4, as amended. When the candidates before one ended without an error,
  the claim of that one is fetched and the create of the new claim fails in all 12
  attempts, 10 seconds apart, then the pass stops there without ending normally: the log
  ends with the 12th attempt and its sleep, whatever candidates remain, and the negative
  cache is as it was before that candidate. When the fetched claim has its storage class
  and its volume mode set, the pass returns the error of the last attempt.\<close>

theorem exhausted_retry_ends_pass:
  assumes pre: "rebuildVolume cl cache pre h = (Done, cache1, out1)"
    and get: "clGetPVC cl (h @ out1) obj = Inr pvc"
    and exh: "fst (UntilMaxRetry (\<lambda>h'. (clCreatePVC cl h' (newPvcOf obj pvc),
                                         [CreatePVC (newPvcOf obj pvc)])) 12 10
                    ((h @ out1) @ [GetPVC obj, DeletePVC (newPvcOf obj pvc)])) = Some e"
  shows "snd (rebuildVolume cl cache (pre @ (key, obj) # rest) h) =
           (cache1,
            out1 @ [GetPVC obj, DeletePVC (newPvcOf obj pvc)] @
            concat (replicate 12 [CreatePVC (newPvcOf obj pvc), Sleep 10])) \<and>
         fst (rebuildVolume cl cache (pre @ (key, obj) # rest) h) \<noteq> Done \<and>
         (pvcStorageClassName pvc \<noteq> None \<and> pvcVolumeMode pvc \<noteq> None \<longrightarrow>
            fst (rebuildVolume cl cache (pre @ (key, obj) # rest) h) = Failed e)"
proof -
  have "rebuildVolume cl cache (pre @ (key, obj) # rest) h =
          (if pvcStorageClassName pvc = None \<or> pvcVolumeMode pvc = None then Panic
           else Failed e,
           cache1,
           out1 @ [GetPVC obj, DeletePVC (newPvcOf obj pvc)] @
           concat (replicate 12 [CreatePVC (newPvcOf obj pvc), Sleep 10]))"
    using pre rebuildVolume_exhausted[OF get exh, of cache1 key rest]
    by (simp add: rebuildVolume_append del: rebuildVolume.simps)
  then show ?thesis by simp
qed

lemma stuck_exhausted:
  "fst (UntilMaxRetry (\<lambda>h'. (clCreatePVC stuckClient h' p, [CreatePVC p])) 12 10 h) =
     Some (ApiError ''AlreadyExists'')"
  by (simp add: UntilMaxRetry_def stuckClient_def eval_nat_numeral)

text \<open>On the cluster that refuses every create, the candidate \<open>lv-other\<close> is left
  out.\<close>

theorem exhausted_retry_ends_pass_witness:
  "rebuildVolume stuckClient Map.empty [] [] = (Done, Map.empty, []) \<and>
   pvcStorageClassName pvcLost \<noteq> None \<and> pvcVolumeMode pvcLost \<noteq> None \<and>
   fst (rebuildVolume stuckClient Map.empty
     ([] @ (''lv-lost'', \<lparr>keyNamespace = ''default'', keyName = ''pvc-lost''\<rparr>) #
        [(''lv-other'', \<lparr>keyNamespace = ''default'', keyName = ''pvc-other''\<rparr>)]) []) =
     Failed (ApiError ''AlreadyExists'') \<and>
   snd (rebuildVolume stuckClient Map.empty
     ([] @ (''lv-lost'', \<lparr>keyNamespace = ''default'', keyName = ''pvc-lost''\<rparr>) #
        [(''lv-other'', \<lparr>keyNamespace = ''default'', keyName = ''pvc-other''\<rparr>)]) []) =
     (Map.empty,
      [] @ [GetPVC \<lparr>keyNamespace = ''default'', keyName = ''pvc-lost''\<rparr>,
       DeletePVC (newPvcOf \<lparr>keyNamespace = ''default'', keyName = ''pvc-lost''\<rparr> pvcLost)] @
      concat (replicate 12
        [CreatePVC (newPvcOf \<lparr>keyNamespace = ''default'', keyName = ''pvc-lost''\<rparr> pvcLost),
         Sleep 10]))"
proof -
  have h1: "rebuildVolume stuckClient Map.empty [] [] = (Done, Map.empty, [])" by simp
  have h2: "clGetPVC stuckClient ([] @ [])
              \<lparr>keyNamespace = ''default'', keyName = ''pvc-lost''\<rparr> = Inr pvcLost"
    by (simp add: stuckClient_def pvcLost_def)
  have h3: "pvcStorageClassName pvcLost \<noteq> None" by (simp add: pvcLost_def)
  have h4: "pvcVolumeMode pvcLost \<noteq> None" by (simp add: pvcLost_def)
  from exhausted_retry_ends_pass[OF h1 h2 stuck_exhausted] h1 h3 h4
  show ?thesis by blast
qed

text \<open>Claim C4 as the specification words it (the remaining candidates are still
  processed) fails on that cluster: the pass returns the error and the claim of the second
  candidate is never fetched.\<close>

theorem remaining_candidates_counterexample:
  "fst (rebuildVolume stuckClient Map.empty
        [(''lv-lost'', \<lparr>keyNamespace = ''default'', keyName = ''pvc-lost''\<rparr>),
         (''lv-other'', \<lparr>keyNamespace = ''default'', keyName = ''pvc-other''\<rparr>)] []) =
     Failed (ApiError ''AlreadyExists'') \<and>
   GetPVC \<lparr>keyNamespace = ''default'', keyName = ''pvc-other''\<rparr> \<notin> set (snd (snd
     (rebuildVolume stuckClient Map.empty
        [(''lv-lost'', \<lparr>keyNamespace = ''default'', keyName = ''pvc-lost''\<rparr>),
         (''lv-other'', \<lparr>keyNamespace = ''default'', keyName = ''pvc-other''\<rparr>)] [])))"
proof -
  have g: "clGetPVC stuckClient [] \<lparr>keyNamespace = ''default'', keyName = ''pvc-lost''\<rparr> =
             Inr pvcLost"
    by (simp add: stuckClient_def pvcLost_def)
  show ?thesis
    unfolding rebuildVolume_exhausted[OF g stuck_exhausted]
    by (simp add: eval_nat_numeral pvcLost_def)
qed


lemma lvBody_candidate:
  assumes "lvOwnerReferences lv = []"
    and "\<not> (lvStatus lv \<noteq> [] \<and> pvm (lvName lv) = None)"
    and "\<not> (lvStatus lv = ''Success'' \<and>
            (cache (lvName lv) \<noteq> None \<or> ns (lvNodeName lv) = Some ''normal''))"
  shows "map_of (fst (lvBody cl fin cache ns pvm lv vm h)) (lvName lv) =
           Some \<lparr>keyNamespace = lvNameSpace lv, keyName = lvPvc lv\<rparr>"
  using assms by (auto simp: lvBody_def Let_def update_conv' split: option.splits)

lemma lvBody_keys_mono:
  "fst ` set vm \<subseteq> fst ` set (fst (lvBody cl fin cache ns pvm lv vm h))"
  by (auto simp: lvBody_def Let_def dom_update split: option.splits)

lemma lvLoop_keys_mono:
  "fst ` set vm \<subseteq> fst ` set (fst (lvLoop cl fin cache ns pvm lvs vm h))"
proof (induction lvs arbitrary: vm h)
  case Nil
  show ?case by simp
next
  case (Cons lv lvs)
  obtain vm1 e1 out1 where b: "lvBody cl fin cache ns pvm lv vm h = (vm1, e1, out1)"
    by (cases "lvBody cl fin cache ns pvm lv vm h") auto
  from lvBody_keys_mono[of vm cl fin cache ns pvm lv h] b
  have m: "fst ` set vm \<subseteq> fst ` set vm1" by simp
  show ?case
  proof (cases e1)
    case (Some err)
    with b m show ?thesis by simp
  next
    case None
    obtain vm2 e2 out2 where l: "lvLoop cl fin cache ns pvm lvs vm1 (h @ out1) = (vm2, e2, out2)"
      by (cases "lvLoop cl fin cache ns pvm lvs vm1 (h @ out1)") auto
    from Cons.IH[of vm1 "h @ out1"] l have "fst ` set vm1 \<subseteq> fst ` set vm2" by simp
    with m b None l show ?thesis by auto
  qed
qed

lemma later_pass_selects:
  assumes lst: "clListLV cl h = Inr (before @ lv # after)"
    and nodes: "clListNode cl (h @ [ListLogicVolumes]) = Inr nl"
    and pvs: "clListPV cl (h @ [ListLogicVolumes, ListNodes]) = Inr pvs"
    and reach: "lvLoop cl fin cache (nodeStatusOf nl Map.empty) (pvNames pvs Map.empty) before []
                  (h @ [ListLogicVolumes, ListNodes, ListPersistentVolumes]) = (vm1, None, out1)"
    and own: "lvOwnerReferences lv = []"
    and bound: "lvStatus lv = [] \<or> lvName lv \<in> pvName ` set pvs"
    and sel: "\<not> (lvStatus lv = ''Success'' \<and>
                 (cache (lvName lv) \<noteq> None \<or>
                  nodeStatusOf nl Map.empty (lvNodeName lv) = Some ''normal''))"
  shows "lvName lv \<in> fst ` set (fst (getNeedRebuildVolume cl fin cache h))"
proof -
  define ns where "ns = nodeStatusOf nl Map.empty"
  define pvm where "pvm = pvNames pvs Map.empty"
  define h0 where "h0 = h @ [ListLogicVolumes, ListNodes, ListPersistentVolumes]"
  from bound have nb: "\<not> (lvStatus lv \<noteq> [] \<and> pvm (lvName lv) = None)"
    by (auto simp: pvm_def pvNames_None)
  from sel have ns': "\<not> (lvStatus lv = ''Success'' \<and>
            (cache (lvName lv) \<noteq> None \<or> ns (lvNodeName lv) = Some ''normal''))"
    by (simp add: ns_def)
  obtain vm2 e2 out2 where b: "lvBody cl fin cache ns pvm lv vm1 (h0 @ out1) = (vm2, e2, out2)"
    by (cases "lvBody cl fin cache ns pvm lv vm1 (h0 @ out1)") auto
  from lvBody_candidate[where lv = lv and pvm = pvm and cache = cache and ns = ns
        and cl = cl and fin = fin and vm = vm1 and h = "h0 @ out1"] own nb ns' b
  have "map_of vm2 (lvName lv) = Some \<lparr>keyNamespace = lvNameSpace lv, keyName = lvPvc lv\<rparr>"
    by simp
  then have "(lvName lv, \<lparr>keyNamespace = lvNameSpace lv, keyName = lvPvc lv\<rparr>) \<in> set vm2"
    by (rule map_of_SomeD)
  then have k2: "lvName lv \<in> fst ` set vm2" by force
  have k3: "lvName lv \<in> fst ` set (fst (lvLoop cl fin cache ns pvm (lv # after) vm1 (h0 @ out1)))"
  proof (cases e2)
    case (Some err)
    with b k2 show ?thesis by simp
  next
    case None
    obtain vm3 e3 out3 where
      l: "lvLoop cl fin cache ns pvm after vm2 ((h0 @ out1) @ out2) = (vm3, e3, out3)"
      by (cases "lvLoop cl fin cache ns pvm after vm2 ((h0 @ out1) @ out2)") auto
    from lvLoop_keys_mono[of vm2 cl fin cache ns pvm after "(h0 @ out1) @ out2"] l k2
    have "lvName lv \<in> fst ` set vm3" by auto
    with b None l show ?thesis by simp
  qed
  from reach have r: "lvLoop cl fin cache ns pvm before [] h0 = (vm1, None, out1)"
    by (simp add: ns_def pvm_def h0_def)
  have a: "fst (lvLoop cl fin cache ns pvm (before @ lv # after) [] h0) =
           fst (lvLoop cl fin cache ns pvm (lv # after) vm1 (h0 @ out1))"
    using r
    by (cases "lvLoop cl fin cache ns pvm (lv # after) vm1 (h0 @ out1)")
       (simp add: lvLoop_append del: lvLoop.simps)
  have "fst (getNeedRebuildVolume cl fin cache h) =
          fst (lvLoop cl fin cache ns pvm (before @ lv # after) [] h0)"
    using lst nodes pvs
    by (simp add: getNeedRebuildVolume_def pvMap_def ns_def pvm_def h0_def split: prod.splits)
  with a k3 show ?thesis by simp
qed

text \<open>Claim C5, as amended. A pass that stops because the create of the claim of a
  LogicVolume failed in all 12 attempts does not end normally (it returns the error of the
  last attempt when the fetched claim has its storage class and volume mode set) and
  leaves the negative cache as it was before that candidate: the failure is not recorded.
  A later pass run with that cache, which lists the LogicVolume and reaches it, records it
  as a rebuild candidate again whenever it has no owner reference, is not orphaned (its
  status is empty or a PersistentVolume of its name is listed), and is not of status
  \<open>Success\<close> with its name in that cache or its node normal.\<close>

theorem exhausted_retry_not_recorded:
  assumes pre: "rebuildVolume cl cache pre h = (Done, cache1, out1)"
    and get: "clGetPVC cl (h @ out1) obj = Inr pvc"
    and exh: "fst (UntilMaxRetry (\<lambda>h'. (clCreatePVC cl h' (newPvcOf obj pvc),
                                         [CreatePVC (newPvcOf obj pvc)])) 12 10
                    ((h @ out1) @ [GetPVC obj, DeletePVC (newPvcOf obj pvc)])) = Some e"
    and lst: "clListLV cl' h' = Inr (before @ lv # after)"
    and nodes: "clListNode cl' (h' @ [ListLogicVolumes]) = Inr nl"
    and pvs: "clListPV cl' (h' @ [ListLogicVolumes, ListNodes]) = Inr pvs"
    and reach: "lvLoop cl' fin cache1 (nodeStatusOf nl Map.empty) (pvNames pvs Map.empty)
                  before [] (h' @ [ListLogicVolumes, ListNodes, ListPersistentVolumes]) =
                  (vm1, None, out')"
    and own: "lvOwnerReferences lv = []"
    and bound: "lvStatus lv = [] \<or> lvName lv \<in> pvName ` set pvs"
    and sel: "\<not> (lvStatus lv = ''Success'' \<and>
                 (cache1 (lvName lv) \<noteq> None \<or>
                  nodeStatusOf nl Map.empty (lvNodeName lv) = Some ''normal''))"
  shows "fst (snd (rebuildVolume cl cache (pre @ (lvName lv, obj) # rest) h)) = cache1 \<and>
         fst (rebuildVolume cl cache (pre @ (lvName lv, obj) # rest) h) \<noteq> Done \<and>
         (pvcStorageClassName pvc \<noteq> None \<and> pvcVolumeMode pvc \<noteq> None \<longrightarrow>
            fst (rebuildVolume cl cache (pre @ (lvName lv, obj) # rest) h) = Failed e) \<and>
         lvName lv \<in> fst ` set (fst (getNeedRebuildVolume cl' fin
            (fst (snd (rebuildVolume cl cache (pre @ (lvName lv, obj) # rest) h))) h'))"
proof -
  have r: "rebuildVolume cl cache (pre @ (lvName lv, obj) # rest) h =
          (if pvcStorageClassName pvc = None \<or> pvcVolumeMode pvc = None then Panic
           else Failed e,
           cache1,
           out1 @ [GetPVC obj, DeletePVC (newPvcOf obj pvc)] @
           concat (replicate 12 [CreatePVC (newPvcOf obj pvc), Sleep 10]))"
    using pre rebuildVolume_exhausted[OF get exh, of cache1 "lvName lv" rest]
    by (simp add: rebuildVolume_append del: rebuildVolume.simps)
  then have c: "fst (snd (rebuildVolume cl cache (pre @ (lvName lv, obj) # rest) h)) = cache1"
    by simp
  from later_pass_selects[OF lst nodes pvs reach own bound sel]
  have "lvName lv \<in> fst ` set (fst (getNeedRebuildVolume cl' fin cache1 h'))" .
  with r c show ?thesis by simp
qed

text \<open>On the cluster that refuses every create, \<open>lvLost\<close> stays out of the negative
  cache, and the next pass, which reaches it after the three LogicVolumes listed before
  it, records it as a candidate again.\<close>

theorem exhausted_retry_not_recorded_witness:
  "rebuildVolume stuckClient Map.empty [] [] = (Done, Map.empty, []) \<and>
   clListLV stuckClient [] = Inr ([lvOwned, lvOrphan, lvBare] @ lvLost # []) \<and>
   lvOwnerReferences lvLost = [] \<and>
   lvStatus lvLost = ''Success'' \<and>
   lvName lvLost \<in> pvName ` set [pvLost] \<and>
   fst (snd (rebuildVolume stuckClient Map.empty
     ([] @ (lvName lvLost, \<lparr>keyNamespace = ''default'', keyName = ''pvc-lost''\<rparr>) # []) [])) =
     Map.empty \<and>
   fst (rebuildVolume stuckClient Map.empty
     ([] @ (lvName lvLost, \<lparr>keyNamespace = ''default'', keyName = ''pvc-lost''\<rparr>) # []) []) =
     Failed (ApiError ''AlreadyExists'') \<and>
   lvName lvLost \<in> fst ` set (fst (getNeedRebuildVolume stuckClient exFinalizer
      (fst (snd (rebuildVolume stuckClient Map.empty
         ([] @ (lvName lvLost, \<lparr>keyNamespace = ''default'', keyName = ''pvc-lost''\<rparr>) # [])
         []))) []))"
proof -
  have h1: "rebuildVolume stuckClient Map.empty [] [] = (Done, Map.empty, [])" by simp
  have h2: "clGetPVC stuckClient ([] @ [])
              \<lparr>keyNamespace = ''default'', keyName = ''pvc-lost''\<rparr> = Inr pvcLost"
    by (simp add: stuckClient_def pvcLost_def)
  have l1: "clListLV stuckClient [] = Inr ([lvOwned, lvOrphan, lvBare] @ lvLost # [])"
    by (simp add: stuckClient_def exClient_def)
  have l2: "clListNode stuckClient ([] @ [ListLogicVolumes]) = Inr []"
    by (simp add: stuckClient_def exClient_def)
  have l3: "clListPV stuckClient ([] @ [ListLogicVolumes, ListNodes]) = Inr [pvLost]"
    by (simp add: stuckClient_def exClient_def)
  have l4: "lvLoop stuckClient exFinalizer Map.empty (nodeStatusOf [] Map.empty)
              (pvNames [pvLost] Map.empty) [lvOwned, lvOrphan, lvBare] []
              ([] @ [ListLogicVolumes, ListNodes, ListPersistentVolumes]) =
            ([], None,
             [DeleteLV lvOrphan, PatchLV (lvOrphan\<lparr>lvFinalizers := [''kubernetes'']\<rparr>) lvOrphan])"
    by (simp add: lvBody_def stuckClient_def exClient_def lvOwned_def lvOrphan_def lvBare_def
        pvLost_def ContainsString_def SliceRemoveString_def exFinalizer_def Let_def)
  have h4: "lvOwnerReferences lvLost = []" by (simp add: lvLost_def)
  have h5: "lvName lvLost \<in> pvName ` set [pvLost]" by (simp add: lvLost_def pvLost_def)
  then have h6: "lvStatus lvLost = [] \<or> lvName lvLost \<in> pvName ` set [pvLost]" by simp
  have h7: "\<not> (lvStatus lvLost = ''Success'' \<and>
              (Map.empty (lvName lvLost) \<noteq> None \<or>
               nodeStatusOf [] Map.empty (lvNodeName lvLost) = Some ''normal''))"
    by simp
  have h8: "lvStatus lvLost = ''Success''" by (simp add: lvLost_def)
  have h9: "pvcStorageClassName pvcLost \<noteq> None \<and> pvcVolumeMode pvcLost \<noteq> None"
    by (simp add: pvcLost_def)
  from exhausted_retry_not_recorded[where cl = stuckClient and cache = Map.empty
        and pre = "[]" and h = "[]" and ?cache1.0 = Map.empty and ?out1.0 = "[]"
        and obj = "\<lparr>keyNamespace = ''default'', keyName = ''pvc-lost''\<rparr>"
        and pvc = pvcLost and e = "ApiError ''AlreadyExists''" and lv = lvLost
        and rest = "[]" and cl' = stuckClient and fin = exFinalizer and h' = "[]"
        and before = "[lvOwned, lvOrphan, lvBare]" and after = "[]" and nl = "[]"
        and pvs = "[pvLost]", OF h1 h2 stuck_exhausted l1 l2 l3 l4 h4 h6 h7]
    h1 l1 h4 h5 h8 h9
  show ?thesis by blast
qed

lemma stuck_getNeed:
  "getNeedRebuildVolume stuckClient exFinalizer Map.empty h =
     ([(''lv-lost'', \<lparr>keyNamespace = ''default'', keyName = ''pvc-lost''\<rparr>)], None,
      [ListLogicVolumes, ListNodes, ListPersistentVolumes,
       DeleteLV lvOrphan, PatchLV (lvOrphan\<lparr>lvFinalizers := [''kubernetes'']\<rparr>) lvOrphan,
       PatchLV (lvLost\<lparr>lvFinalizers := []\<rparr>) lvLost])"
  by (simp add: getNeedRebuildVolume_def stuckClient_def exClient_def pvMap_def lvBody_def
      lvOwned_def lvOrphan_def lvBare_def lvLost_def pvLost_def ContainsString_def
      SliceRemoveString_def exFinalizer_def Let_def)

lemma stuck_pass:
  "resourceReconcile stuckClient exFinalizer Map.empty h =
     (Failed (ApiError ''AlreadyExists''), Map.empty,
      [ListLogicVolumes, ListNodes, ListPersistentVolumes,
       DeleteLV lvOrphan, PatchLV (lvOrphan\<lparr>lvFinalizers := [''kubernetes'']\<rparr>) lvOrphan,
       PatchLV (lvLost\<lparr>lvFinalizers := []\<rparr>) lvLost] @
      [GetPVC \<lparr>keyNamespace = ''default'', keyName = ''pvc-lost''\<rparr>,
       DeletePVC (newPvcOf \<lparr>keyNamespace = ''default'', keyName = ''pvc-lost''\<rparr> pvcLost)] @
      concat (replicate 12
        [CreatePVC (newPvcOf \<lparr>keyNamespace = ''default'', keyName = ''pvc-lost''\<rparr> pvcLost),
         Sleep 10]))"
proof -
  have g: "clGetPVC stuckClient h' \<lparr>keyNamespace = ''default'', keyName = ''pvc-lost''\<rparr> =
             Inr pvcLost" for h'
    by (simp add: stuckClient_def pvcLost_def)
  have s: "pvcStorageClassName pvcLost \<noteq> None \<and> pvcVolumeMode pvcLost \<noteq> None"
    by (simp add: pvcLost_def)
  show ?thesis
    unfolding resourceReconcile_def stuck_getNeed
    using s by (simp add: rebuildVolume_exhausted[OF g stuck_exhausted] del: rebuildVolume.simps)
qed

text \<open>Claim C5 as the specification words it (the name is recorded, later passes
  skip it) fails on that cluster: after the first pass \<open>lv-lost\<close> is not in the negative
  cache, and the second pass, run with the cache and the log of the first, tries to create
  the claim again.\<close>

theorem retried_next_pass_counterexample:
  "fst (snd (resourceReconcile stuckClient exFinalizer Map.empty [])) ''lv-lost'' = None \<and>
   CreatePVC (newPvcOf \<lparr>keyNamespace = ''default'', keyName = ''pvc-lost''\<rparr> pvcLost)
     \<in> set (snd (snd (resourceReconcile stuckClient exFinalizer
                (fst (snd (resourceReconcile stuckClient exFinalizer Map.empty [])))
                (snd (snd (resourceReconcile stuckClient exFinalizer Map.empty []))))))"
  unfolding stuck_pass fst_conv snd_conv
  by (simp add: eval_nat_numeral)

section \<open>Throttle controller: the single-pod path\<close>

text \<open>Claim C10. When the pod that \<open>Reconcile\<close> fetches carries a deletion timestamp,
  \<open>Reconcile\<close> returns success with the fetch as its only call: no command is run and
  nothing is written to the cluster. The update filter does not look at the timestamp: an
  update event passes it exactly when the new pod is on the local node and of the local
  scheduler.\<close>

theorem deleted_pod_untouched:
  assumes "pGetPod cl h req = Inr pod" and "podDeletionTimestamp pod \<noteq> None"
  shows "Reconcile u cl req h = (Done, [GetPod req]) \<and>
         (podFilter_Update u n \<lparr>ObjectOld = old, ObjectNew = Some pod\<rparr> \<longleftrightarrow>
            podNodeName pod = n \<and> podSchedulerName pod = CarinaSchedule u)"
  using assms by (simp add: Reconcile_def podFilter_Update_def podFilter_filter_def)

text \<open>The pod \<open>web-0\<close>, running on \<open>node1\<close> and being deleted: its update
  event passes the filter and its reconcile only fetches it.\<close>

theorem deleted_pod_untouched_witness:
  "pGetPod deletingClient [] reqWeb =
     Inr (podWeb\<lparr>podPhase := ''Running'', podDeletionTimestamp := Some 1\<rparr>) \<and>
   podDeletionTimestamp (podWeb\<lparr>podPhase := ''Running'', podDeletionTimestamp := Some 1\<rparr>) \<noteq> None \<and>
   Reconcile exUtils deletingClient reqWeb [] = (Done, [GetPod reqWeb]) \<and>
   podFilter_Update exUtils ''node1''
     \<lparr>ObjectOld = Some podWeb,
      ObjectNew = Some (podWeb\<lparr>podPhase := ''Running'', podDeletionTimestamp := Some 1\<rparr>)\<rparr>"
proof -
  have h1: "pGetPod deletingClient [] reqWeb =
     Inr (podWeb\<lparr>podPhase := ''Running'', podDeletionTimestamp := Some 1\<rparr>)"
    by (simp add: deletingClient_def startingClient_def)
  have h2: "podDeletionTimestamp (podWeb\<lparr>podPhase := ''Running'', podDeletionTimestamp := Some 1\<rparr>) \<noteq> None"
    by simp
  have h3: "podNodeName (podWeb\<lparr>podPhase := ''Running'', podDeletionTimestamp := Some 1\<rparr>) = ''node1''
    \<and> podSchedulerName (podWeb\<lparr>podPhase := ''Running'', podDeletionTimestamp := Some 1\<rparr>) =
        CarinaSchedule exUtils"
    by (simp add: podWeb_def exUtils_def)
  from deleted_pod_untouched[OF h1 h2, of exUtils "''node1''" "Some podWeb"] h1 h2 h3
  show ?thesis by blast
qed

text \<open>Claim C6 fails on the code. When the fetched pod is not being deleted and not
  running, the loop sleeps 30 seconds and fetches the pod again; the test after that fetch is
  \<open>err == nil\<close>, so when the fetch succeeds \<open>Reconcile\<close> returns at once: one poll,
  and \<open>SinglePodCGroupConfig\<close> is not reached.\<close>

theorem waiting_pod_not_configured:
  assumes "pGetPod cl h req = Inr pod" and "podDeletionTimestamp pod = None"
    and "podPhase pod \<noteq> PodRunning"
    and "pGetPod cl (h @ [GetPod req, PSleep 30]) req = Inr pod'"
  shows "Reconcile u cl req h = (Done, [GetPod req, PSleep 30, GetPod req])"
  using assms by (simp add: Reconcile_def eval_nat_numeral)

text \<open>The pod \<open>web-0\<close> is pending at the first fetch and running at the second:
  the reconcile ends without a command, though configuring the running pod would run
  four.\<close>

theorem waiting_pod_not_configured_witness:
  "pGetPod startingClient [] reqWeb = Inr podWeb \<and>
   podDeletionTimestamp podWeb = None \<and> podPhase podWeb \<noteq> PodRunning \<and>
   pGetPod startingClient ([] @ [GetPod reqWeb, PSleep 30]) reqWeb =
     Inr (podWeb\<lparr>podPhase := ''Running''\<rparr>) \<and>
   Reconcile exUtils startingClient reqWeb [] = (Done, [GetPod reqWeb, PSleep 30, GetPod reqWeb]) \<and>
   SinglePodCGroupConfig exUtils startingClient (podWeb\<lparr>podPhase := ''Running''\<rparr>)
     [GetPod reqWeb, PSleep 30, GetPod reqWeb] =
     (Done, [ListPVs ''default-pvc-data'',
        ExecuteCommand ''8:16'' ''104857600'' (BlkIOCGroupPath @ BlkIOThrottleReadBPS),
        ExecuteCommand ''8:16'' ''0'' (BlkIOCGroupPath @ BlkIOThrottleReadIOPS),
        ExecuteCommand ''8:16'' ''0'' (BlkIOCGroupPath @ BlkIOThrottleWriteBPS),
        ExecuteCommand ''8:16'' ''0'' (BlkIOCGroupPath @ BlkIOThrottleWriteIOPS)])"
proof -
  have h1: "pGetPod startingClient [] reqWeb = Inr podWeb" by (simp add: startingClient_def)
  have h2: "podDeletionTimestamp podWeb = None" by (simp add: podWeb_def)
  have h3: "podPhase podWeb \<noteq> PodRunning" by (simp add: podWeb_def PodRunning_def)
  have h4: "pGetPod startingClient ([] @ [GetPod reqWeb, PSleep 30]) reqWeb =
     Inr (podWeb\<lparr>podPhase := ''Running''\<rparr>)" by (simp add: startingClient_def)
  have h5: "SinglePodCGroupConfig exUtils startingClient (podWeb\<lparr>podPhase := ''Running''\<rparr>)
     [GetPod reqWeb, PSleep 30, GetPod reqWeb] =
     (Done, [ListPVs ''default-pvc-data'',
        ExecuteCommand ''8:16'' ''104857600'' (BlkIOCGroupPath @ BlkIOThrottleReadBPS),
        ExecuteCommand ''8:16'' ''0'' (BlkIOCGroupPath @ BlkIOThrottleReadIOPS),
        ExecuteCommand ''8:16'' ''0'' (BlkIOCGroupPath @ BlkIOThrottleWriteBPS),
        ExecuteCommand ''8:16'' ''0'' (BlkIOCGroupPath @ BlkIOThrottleWriteIOPS)])"
    by (simp add: SinglePodCGroupConfig_def blkioNames_def resolveVolume_def podWeb_def
        startingClient_def pvData_def exUtils_def attr_def fillSingle_def annotationKey_def
        KubernetesCustomized_def BlkIOThrottleReadBPS_def BlkIOThrottleReadIOPS_def
        BlkIOThrottleWriteBPS_def BlkIOThrottleWriteIOPS_def writeCgroupBlkioFile_def
        writeOne_def Let_def)
  from waiting_pod_not_configured[OF h1 h2 h3 h4, of exUtils] h1 h2 h3 h4 h5
  show ?thesis by blast
qed

section \<open>Throttle controller: reading the host state\<close>

lemma Split_length: "length (Split s) = Suc (length (filter (\<lambda>c. c = CHR '' '') s))"
  by (induction s) auto

lemma Split_short: "CHR '' '' \<notin> set s \<Longrightarrow> length (Split s) < 2"
  by (auto simp: Split_length filter_empty_conv)

lemma scanLines_panic:
  assumes "line \<in> set lines" and "CHR '' '' \<notin> set (TrimSpace line)"
  shows "scanLines lines old = None"
  using assms
proof (induction lines arbitrary: old)
  case Nil
  then show ?case by simp
next
  case (Cons l ls)
  show ?case
  proof (cases "length (Split (TrimSpace l)) < 2")
    case True
    then show ?thesis by (simp add: Let_def)
  next
    case False
    with Cons.prems Split_short have "line \<in> set ls" by auto
    from Cons.IH[OF this Cons.prems(2)] False show ?thesis by (simp add: Let_def)
  qed
qed

text \<open>Claim C7 fails on the code. When the first throttle file has a line that,
  trimmed, holds no space, \<open>strSlice[1]\<close> is out of range: the full-resync pass panics
  right after opening the file, instead of taking the previous state as empty.\<close>

theorem malformed_line_panics:
  assumes "pListPods cl h (CarinaSchedule u @ ''-'' @ node) = Inr items"
    and "pOpen cl (h @ [ListPods (CarinaSchedule u @ ''-'' @ node)])
           (BlkIOCGroupPath @ BlkIOThrottleReadBPS) = Inr lines"
    and "line \<in> set lines" and "CHR '' '' \<notin> set (TrimSpace line)"
  shows "AllPodCGroupConfig u cl node h =
           (Panic, [ListPods (CarinaSchedule u @ ''-'' @ node),
                    OpenFile (BlkIOCGroupPath @ BlkIOThrottleReadBPS)])"
  using assms(1,2) scanLines_panic[OF assms(3,4), of "[]"]
  by (simp add: AllPodCGroupConfig_def readCGroupBlkioFile_def blkioNames_def Let_def)

text \<open>A file whose second line is \<open>8:32\<close>, a device key without a value.\<close>

theorem malformed_line_panics_witness:
  "pListPods malformedClient [] (CarinaSchedule exUtils @ ''-'' @ ''node1'') =
     Inr [podWeb\<lparr>podPhase := ''Running''\<rparr>] \<and>
   pOpen malformedClient ([] @ [ListPods (CarinaSchedule exUtils @ ''-'' @ ''node1'')])
     (BlkIOCGroupPath @ BlkIOThrottleReadBPS) = Inr [''8:16 1048576'', ''8:32''] \<and>
   ''8:32'' \<in> set [''8:16 1048576'', ''8:32''] \<and>
   CHR '' '' \<notin> set (TrimSpace ''8:32'') \<and>
   AllPodCGroupConfig exUtils malformedClient ''node1'' [] =
     (Panic, [ListPods (CarinaSchedule exUtils @ ''-'' @ ''node1''),
              OpenFile (BlkIOCGroupPath @ BlkIOThrottleReadBPS)])"
proof -
  have h1: "pListPods malformedClient [] (CarinaSchedule exUtils @ ''-'' @ ''node1'') =
     Inr [podWeb\<lparr>podPhase := ''Running''\<rparr>]"
    by (simp add: malformedClient_def startingClient_def)
  have h2: "pOpen malformedClient ([] @ [ListPods (CarinaSchedule exUtils @ ''-'' @ ''node1'')])
     (BlkIOCGroupPath @ BlkIOThrottleReadBPS) = Inr [''8:16 1048576'', ''8:32'']"
    by (simp add: malformedClient_def startingClient_def)
  have h3: "''8:32'' \<in> set [''8:16 1048576'', ''8:32'']" by simp
  have h4: "CHR '' '' \<notin> set (TrimSpace ''8:32'')" by (simp add: TrimSpace_def runeWidth_def spaceRunes_def)
  from malformed_line_panics[OF h1 h2 h3 h4] h1 h2 h3 h4 show ?thesis by blast
qed

section \<open>Capacity aggregator: create does not refresh the cache\<close>

lemma nodeDevice_one:
  "nodeDeviceOf exUtils [nodeOne] =
     [[(''capacity.carina.storage.io/carina-vg-hdd'', ''100''),
       (''allocatable.carina.storage.io/carina-vg-hdd'', ''90''),
       (''nodeName'', ''node1'')]]"
  by (simp add: nodeOne_def exUtils_def HasPrefix_def Sprintf_d_def digits.simps Let_def)

text \<open>Claim C8 fails on the code. On a cluster where the artifact does not exist
  yet, the first pass creates it and returns before \<open>cacheRefresh\<close>: the cache is still
  empty. The second pass computes the same records, misses the cache and updates the
  artifact: two writes for two passes with identical records.\<close>

theorem create_then_update_two_writes:
  "updateNodeConfigMap exUtils freshClient [] [] =
     (None, [], [CListNodes, GetCM, CreateCM (nodeDeviceOf exUtils [nodeOne])]) \<and>
   updateNodeConfigMap exUtils freshClient []
       [CListNodes, GetCM, CreateCM (nodeDeviceOf exUtils [nodeOne])] =
     (None, cacheRefresh (nodeDeviceOf exUtils [nodeOne]),
      [CListNodes, GetCM, UpdateCM (nodeDeviceOf exUtils [nodeOne])])"
  by (simp add: updateNodeConfigMap_def freshClient_def nodeDevice_one cacheHit_def Let_def
      del: nodeDeviceOf.simps)

section \<open>Throttle controller: the full-resync pass\<close>

lemma fold_fill_map:
  "fold (\<lambda>(q, k). map (fillAll q k)) rs cb = map (fillRefs rs) cb"
proof (induction rs arbitrary: cb)
  case Nil
  show ?case by (simp add: fillRefs_def)
next
  case (Cons r rs)
  obtain q k where r: "r = (q, k)" by (cases r) auto
  show ?case by (simp add: r Cons.IH fillRefs_def)
qed

lemma allVolumes_refs:
  "allVolumes u cl p vols cb h =
     (case refsVolumes u cl p vols h of
        (r, out) \<Rightarrow> (map_option (\<lambda>rs. fold (\<lambda>(q, k). map (fillAll q k)) rs cb) r, out))"
proof (induction vols arbitrary: cb h)
  case Nil
  show ?case by simp
next
  case (Cons v vs)
  obtain res out where r: "resolveVolume u cl (podNamespace p) v h = (res, out)"
    by (cases "resolveVolume u cl (podNamespace p) v h") auto
  show ?case
  proof (cases res)
    case Skip
    with r show ?thesis by (simp add: Cons.IH split: prod.splits)
  next
    case NilCSI
    with r show ?thesis by simp
  next
    case (Key k)
    obtain r2 out2 where l: "refsVolumes u cl p vs (h @ out) = (r2, out2)"
      by (cases "refsVolumes u cl p vs (h @ out)") auto
    with r Key show ?thesis by (cases r2) (simp_all add: Cons.IH)
  qed
qed

lemma allPods_refs:
  "allPods u cl ps cb h =
     (case refsPods u cl ps h of
        (r, out) \<Rightarrow> (map_option (\<lambda>rs. map (fillRefs rs) cb) r, out))"
proof (induction ps arbitrary: cb h)
  case Nil
  show ?case by (simp add: fillRefs_def)
next
  case (Cons p ps)
  obtain r1 out1 where v: "refsVolumes u cl p (podVolumes p) h = (r1, out1)"
    by (cases "refsVolumes u cl p (podVolumes p) h") auto
  show ?case
  proof (cases r1)
    case None
    with v show ?thesis by (simp add: allVolumes_refs)
  next
    case (Some rs1)
    obtain r2 out2 where l: "refsPods u cl ps (h @ out1) = (r2, out2)"
      by (cases "refsPods u cl ps (h @ out1)") auto
    have "map (fillRefs rs2) (map (fillRefs rs1) cb) = map (fillRefs (rs1 @ rs2)) cb" for rs2
      by (simp add: fillRefs_def)
    with v Some l show ?thesis
      by (cases r2) (simp_all add: allVolumes_refs fold_fill_map Cons.IH)
  qed
qed

lemma fillAll_frame [simp]:
  "cname (fillAll q k c) = cname c" "cpath (fillAll q k c) = cpath c"
  "oldBlkio (fillAll q k c) = oldBlkio c"
  by (simp_all add: fillAll_def split: option.splits)

lemma fillRefs_frame_all:
  "cname (fillRefs rs c) = cname c \<and> cpath (fillRefs rs c) = cpath c \<and>
   oldBlkio (fillRefs rs c) = oldBlkio c"
proof (induction rs arbitrary: c)
  case Nil
  show ?case by (simp add: fillRefs_def)
next
  case (Cons r rs)
  obtain q k where r: "r = (q, k)" by (cases r) auto
  have s: "fillRefs (r # rs) c = fillRefs rs (fillAll q k c)" by (simp add: fillRefs_def r)
  show ?case by (simp add: s Cons.IH)
qed

lemma fillRefs_frame [simp]:
  "cname (fillRefs rs c) = cname c" "cpath (fillRefs rs c) = cpath c"
  "oldBlkio (fillRefs rs c) = oldBlkio c"
  using fillRefs_frame_all[of rs c] by simp_all

lemma fillAll_distinct:
  "distinct (map fst (newBlkio c)) \<Longrightarrow> distinct (map fst (newBlkio (fillAll q k c)))"
  by (simp add: fillAll_def distinct_update split: option.splits)

lemma fillRefs_distinct:
  "distinct (map fst (newBlkio c)) \<Longrightarrow> distinct (map fst (newBlkio (fillRefs rs c)))"
proof (induction rs arbitrary: c)
  case Nil
  then show ?case by (simp add: fillRefs_def)
next
  case (Cons r rs)
  obtain q k where r: "r = (q, k)" by (cases r) auto
  have s: "fillRefs (r # rs) c = fillRefs rs (fillAll q k c)" by (simp add: fillRefs_def r)
  from Cons.prems show ?case unfolding s by (intro Cons.IH fillAll_distinct)
qed

lemma fillAll_other:
  "k' \<noteq> k \<Longrightarrow> map_of (newBlkio (fillAll q k' c)) k = map_of (newBlkio c) k"
  by (simp add: fillAll_def update_conv' split: option.splits)

lemma fillAll_unannotated:
  "podAnnotations q (annotationKey (cname c)) = None \<Longrightarrow>
   map_of (newBlkio (fillAll q k c)) k =
     (if map_of (oldBlkio c) k \<noteq> None then Some ''0'' else map_of (newBlkio c) k)"
  by (simp add: fillAll_def update_conv')

lemma fillRefs_unreferenced:
  "k \<notin> snd ` set rs \<Longrightarrow> map_of (newBlkio (fillRefs rs c)) k = map_of (newBlkio c) k"
proof (induction rs arbitrary: c)
  case Nil
  then show ?case by (simp add: fillRefs_def)
next
  case (Cons r rs)
  obtain q k' where r: "r = (q, k')" by (cases r) auto
  have s: "fillRefs (r # rs) c = fillRefs rs (fillAll q k' c)" by (simp add: fillRefs_def r)
  from Cons.prems r have "k' \<noteq> k" "k \<notin> snd ` set rs" by auto
  then show ?case unfolding s by (simp add: Cons.IH fillAll_other)
qed

lemma fillRefs_unannotated:
  assumes "\<forall>q. (q, k) \<in> set rs \<longrightarrow> podAnnotations q (annotationKey (cname c)) = None"
  shows "map_of (newBlkio (fillRefs rs c)) k =
     (if k \<in> snd ` set rs \<and> map_of (oldBlkio c) k \<noteq> None then Some ''0''
      else map_of (newBlkio c) k)"
  using assms
proof (induction rs arbitrary: c)
  case Nil
  then show ?case by (simp add: fillRefs_def)
next
  case (Cons r rs)
  obtain q k' where r: "r = (q, k')" by (cases r) auto
  have s: "fillRefs (r # rs) c = fillRefs rs (fillAll q k' c)" by (simp add: fillRefs_def r)
  from Cons.prems
  have rest: "\<forall>q'. (q', k) \<in> set rs \<longrightarrow>
                podAnnotations q' (annotationKey (cname (fillAll q k' c))) = None"
    by simp
  note ih = Cons.IH[OF rest]
  show ?case
  proof (cases "k' = k")
    case True
    with Cons.prems r have "podAnnotations q (annotationKey (cname c)) = None" by simp
    from fillAll_unannotated[OF this, of k']
    have f: "map_of (newBlkio (fillAll q k' c)) k =
       (if map_of (oldBlkio c) k \<noteq> None then Some ''0'' else map_of (newBlkio c) k)"
      using True by simp
    have "k \<in> snd ` set (r # rs)" using True r by simp
    then show ?thesis unfolding s ih f by simp
  next
    case False
    then have "k \<in> snd ` set (r # rs) \<longleftrightarrow> k \<in> snd ` set rs" using r by auto
    then show ?thesis unfolding s ih by (auto simp: fillAll_other[OF False])
  qed
qed


lemma dropUnchanged_map_of:
  "map_of (dropUnchanged old new) k =
     (if \<exists>v. (k, v) \<in> set old \<and> map_of new k = Some v then None else map_of new k)"
proof (induction old arbitrary: new)
  case Nil
  show ?case by simp
next
  case (Cons a old)
  obtain k0 v0 where a: "a = (k0, v0)" by (cases a) auto
  show ?case
  proof (cases "map_of new k0 = Some v0")
    case True
    then have d: "dropUnchanged (a # old) new = dropUnchanged old (AList.delete k0 new)"
      by (simp add: a)
    show ?thesis
    proof (cases "k = k0")
      case same: True
      with True show ?thesis unfolding d Cons.IH by (auto simp: delete_conv' a)
    next
      case False
      then show ?thesis unfolding d Cons.IH by (auto simp: delete_conv' a)
    qed
  next
    case False
    then have d: "dropUnchanged (a # old) new = dropUnchanged old new"
      by (simp add: a split: option.splits)
    from False show ?thesis unfolding d Cons.IH by (auto simp: a)
  qed
qed

lemma dropUnchanged_distinct:
  "distinct (map fst new) \<Longrightarrow> distinct (map fst (dropUnchanged old new))"
proof (induction old arbitrary: new)
  case Nil
  then show ?case by simp
next
  case (Cons a old)
  obtain k0 v0 where a: "a = (k0, v0)" by (cases a) auto
  from Cons.prems show ?case
    by (auto simp: a distinct_delete intro: Cons.IH split: option.splits)
qed

lemma writesFor_append: "writesFor k path (xs @ ys) = writesFor k path xs @ writesFor k path ys"
  by (induction k path xs rule: writesFor.induct) auto

lemma writesFor_entries:
  assumes "distinct (map fst al)"
  shows "writesFor k path (map (\<lambda>(k', v). ExecuteCommand k' v path') al) =
           (if path' = path then (case map_of al k of None \<Rightarrow> [] | Some v \<Rightarrow> [v]) else [])"
  using assms
proof (induction al)
  case Nil
  show ?case by simp
next
  case (Cons a al)
  obtain k0 v0 where a: "a = (k0, v0)" by (cases a) auto
  from Cons.prems a have d: "distinct (map fst al)" and n: "k0 \<notin> fst ` set al" by auto
  from n have "map_of al k0 = None" by (simp add: map_of_eq_None_iff)
  with Cons.IH[OF d] show ?case by (auto simp: a)
qed

lemma writesFor_writeOne:
  assumes "distinct (map fst (newBlkio c))"
  shows "writesFor k path (writeOne c) =
           (if cpath c = path
            then (case map_of (dropUnchanged (oldBlkio c) (newBlkio c)) k of
                    None \<Rightarrow> [] | Some v \<Rightarrow> [v])
            else [])"
  unfolding writeOne_def
  by (rule writesFor_entries) (rule dropUnchanged_distinct[OF assms])

lemma writesFor_all:
  assumes "distinct (map cpath cb)" and "c \<in> set cb"
    and "\<forall>c' \<in> set cb. distinct (map fst (newBlkio c'))"
  shows "writesFor k (cpath c) (writeCgroupBlkioFile cb) = writesFor k (cpath c) (writeOne c)"
  using assms
proof (induction cb)
  case Nil
  then show ?case by simp
next
  case (Cons a cb)
  have w: "writesFor k (cpath c) (writeCgroupBlkioFile (a # cb)) =
        writesFor k (cpath c) (writeOne a) @ writesFor k (cpath c) (writeCgroupBlkioFile cb)"
    by (simp add: writeCgroupBlkioFile_def writesFor_append)
  from Cons.prems(3) have da: "distinct (map fst (newBlkio a))"
    and dcb: "\<forall>c' \<in> set cb. distinct (map fst (newBlkio c'))" by auto
  show ?case
  proof (cases "c = a")
    case True
    from Cons.prems(1) have "cpath a \<notin> cpath ` set cb" by simp
    with True have "\<forall>c' \<in> set cb. cpath c' \<noteq> cpath c" by (metis imageI)
    with dcb have "writesFor k (cpath c) (concat (map writeOne cb)) = []"
      by (induction cb) (auto simp: writesFor_append writesFor_writeOne)
    with True show ?thesis unfolding w by (simp add: writeCgroupBlkioFile_def)
  next
    case False
    with Cons.prems have c: "c \<in> set cb" and d: "distinct (map cpath cb)"
      and "cpath a \<noteq> cpath c" by auto
    with da have "writesFor k (cpath c) (writeOne a) = []" by (simp add: writesFor_writeOne)
    with Cons.IH[OF d c dcb] show ?thesis unfolding w by simp
  qed
qed

lemma scanLines_distinct:
  "scanLines lines old = Some old' \<Longrightarrow> distinct (map fst old) \<Longrightarrow> distinct (map fst old')"
proof (induction lines arbitrary: old)
  case Nil
  then show ?case by simp
next
  case (Cons l ls)
  from Cons.prems show ?case
    by (auto simp: Let_def distinct_update split: if_splits intro: Cons.IH)
qed

lemma readFiles_result:
  assumes "readFiles cl vs h = (Some cb, out)"
  shows "(\<forall>c \<in> set cb. cpath c = BlkIOCGroupPath @ cname c \<and> newBlkio c = [] \<and>
            distinct (map fst (oldBlkio c)) \<and> cname c \<in> set vs) \<and>
         (distinct vs \<longrightarrow> distinct (map cname cb)) \<and>
         (\<forall>k path. writesFor k path out = [])"
  using assms
proof (induction vs arbitrary: h cb out)
  case Nil
  then show ?case by simp
next
  case (Cons v vs)
  define path where "path = BlkIOCGroupPath @ v"
  obtain r2 out2 where l: "readFiles cl vs (h @ [OpenFile path]) = (r2, out2)"
    by (cases "readFiles cl vs (h @ [OpenFile path])") auto
  show ?case
  proof (cases "pOpen cl h path")
    case (Inl e)
    with Cons.prems l have "r2 = Some cb" "out = OpenFile path # out2"
      by (simp_all add: path_def[symmetric])
    with Cons.IH[of "h @ [OpenFile path]" cb out2] l show ?thesis by auto
  next
    case (Inr lines)
    show ?thesis
    proof (cases "scanLines lines []")
      case None
      with Inr Cons.prems show ?thesis by (simp add: path_def[symmetric])
    next
      case (Some old)
      with Inr Cons.prems l obtain cb2 where r2: "r2 = Some cb2"
        and cb: "cb = \<lparr>cname = v, cpath = path, oldBlkio = old, newBlkio = []\<rparr> # cb2"
        and out: "out = OpenFile path # out2"
        by (cases r2) (simp_all add: path_def[symmetric])
      from scanLines_distinct[OF Some] have "distinct (map fst old)" by simp
      with Cons.IH[of "h @ [OpenFile path]" cb2 out2] l r2 cb out show ?thesis
        by (auto simp: path_def)
    qed
  qed
qed

lemma resolveVolume_out: "writesFor k path (snd (resolveVolume u cl ns v h)) = []"
  by (simp add: resolveVolume_def Let_def split: option.splits sum.splits)

lemma refsVolumes_out: "writesFor k path (snd (refsVolumes u cl p vs h)) = []"
proof (induction vs arbitrary: h)
  case Nil
  show ?case by simp
next
  case (Cons v vs)
  obtain res out where r: "resolveVolume u cl (podNamespace p) v h = (res, out)"
    by (cases "resolveVolume u cl (podNamespace p) v h") auto
  with resolveVolume_out[of k path u cl "podNamespace p" v h]
  have o: "writesFor k path out = []" by simp
  obtain r2 out2 where l: "refsVolumes u cl p vs (h @ out) = (r2, out2)"
    by (cases "refsVolumes u cl p vs (h @ out)") auto
  with Cons.IH[of "h @ out"] have "writesFor k path out2 = []" by simp
  with r o l show ?case by (cases res) (simp_all add: writesFor_append)
qed

lemma refsPods_out: "writesFor k path (snd (refsPods u cl ps h)) = []"
proof (induction ps arbitrary: h)
  case Nil
  show ?case by simp
next
  case (Cons p ps)
  obtain r1 out1 where v: "refsVolumes u cl p (podVolumes p) h = (r1, out1)"
    by (cases "refsVolumes u cl p (podVolumes p) h") auto
  with refsVolumes_out[of k path u cl p "podVolumes p" h]
  have o: "writesFor k path out1 = []" by simp
  obtain r2 out2 where l: "refsPods u cl ps (h @ out1) = (r2, out2)"
    by (cases "refsPods u cl ps (h @ out1)") auto
  with Cons.IH[of "h @ out1"] have "writesFor k path out2 = []" by simp
  with v o l show ?case by (cases r1) (simp_all add: writesFor_append)
qed


lemma distinct_blkioNames: "distinct blkioNames"
  by (simp add: blkioNames_def BlkIOThrottleReadBPS_def BlkIOThrottleReadIOPS_def
      BlkIOThrottleWriteBPS_def BlkIOThrottleWriteIOPS_def)

lemma full_resync_writes:
  assumes lst: "pListPods cl h (CarinaSchedule u @ ''-'' @ node) = Inr items"
    and rd: "readCGroupBlkioFile cl (h @ [ListPods (CarinaSchedule u @ ''-'' @ node)]) =
               (Some cb, out0)"
    and rf: "refsPods u cl items (h @ ListPods (CarinaSchedule u @ ''-'' @ node) # out0) =
               (Some refs, out1)"
    and c: "c \<in> set cb"
  shows "fst (AllPodCGroupConfig u cl node h) = Done \<and>
         writesFor k (cpath c) (snd (AllPodCGroupConfig u cl node h)) =
           (case map_of (dropUnchanged (oldBlkio c) (newBlkio (fillRefs refs c))) k of
              None \<Rightarrow> [] | Some v \<Rightarrow> [v]) \<and>
         newBlkio c = [] \<and> distinct (map fst (oldBlkio c))"
proof -
  let ?idx = "CarinaSchedule u @ ''-'' @ node"
  from rd have r: "readFiles cl blkioNames (h @ [ListPods ?idx]) = (Some cb, out0)"
    by (simp add: readCGroupBlkioFile_def)
  note rr = readFiles_result[OF r]
  from rr have each: "\<forall>c \<in> set cb. cpath c = BlkIOCGroupPath @ cname c \<and> newBlkio c = [] \<and>
            distinct (map fst (oldBlkio c))" by simp
  from rr distinct_blkioNames have dn: "distinct (map cname cb)" by simp
  from rr have o0: "writesFor k (cpath c) out0 = []" by simp
  have eq: "map cpath cb = map ((@) BlkIOCGroupPath) (map cname cb)" using each by simp
  have "distinct (map ((@) BlkIOCGroupPath) (map cname cb))"
    using dn by (subst distinct_map) (simp add: inj_on_def)
  then have dp: "distinct (map cpath cb)" unfolding eq .
  from refsPods_out[of k "cpath c" u cl items "h @ ListPods ?idx # out0"] rf
  have o1: "writesFor k (cpath c) out1 = []" by simp
  from rf have ap: "allPods u cl items cb (h @ ListPods ?idx # out0) =
                      (Some (map (fillRefs refs) cb), out1)"
    by (simp add: allPods_refs)
  from lst rd ap have a: "AllPodCGroupConfig u cl node h =
      (Done, ListPods ?idx # out0 @ out1 @ writeCgroupBlkioFile (map (fillRefs refs) cb))"
    by (simp add: AllPodCGroupConfig_def Let_def)
  have dp': "distinct (map cpath (map (fillRefs refs) cb))" using dp by (simp add: comp_def)
  from c have c': "fillRefs refs c \<in> set (map (fillRefs refs) cb)" by simp
  have dn': "\<forall>c' \<in> set (map (fillRefs refs) cb). distinct (map fst (newBlkio c'))"
    using each by (auto intro: fillRefs_distinct)
  from each c have dc: "distinct (map fst (newBlkio (fillRefs refs c)))"
    by (auto intro: fillRefs_distinct)
  from writesFor_all[OF dp' c' dn', of k]
  have "writesFor k (cpath c) (writeCgroupBlkioFile (map (fillRefs refs) cb)) =
          writesFor k (cpath c) (writeOne (fillRefs refs c))" by simp
  also have "\<dots> = (case map_of (dropUnchanged (oldBlkio c) (newBlkio (fillRefs refs c))) k of
              None \<Rightarrow> [] | Some v \<Rightarrow> [v])"
    using writesFor_writeOne[OF dc, of k "cpath c"] by simp
  finally have w: "writesFor k (cpath c) (writeCgroupBlkioFile (map (fillRefs refs) cb)) =
     (case map_of (dropUnchanged (oldBlkio c) (newBlkio (fillRefs refs c))) k of
              None \<Rightarrow> [] | Some v \<Rightarrow> [v])" .
  from a o0 o1 w each c show ?thesis by (simp add: writesFor_append)
qed

text \<open>Claim C3, as amended. Take a full-resync pass that lists the pods, reads the
  throttle files and resolves the device keys \<open>refs\<close> of the pods' volumes, and a limit
  kind \<open>c\<close> whose file was read. A device key that the pass resolves for no volume is
  never written for that kind. A device key that the pass resolves for some volume, while
  no pod it is resolved for has the override annotation of the kind, and whose previous
  value is not \<open>0\<close>, is written for that kind exactly once, with the value \<open>0\<close>.\<close>

theorem full_resync_clears_unannotated:
  assumes lst: "pListPods cl h (CarinaSchedule u @ ''-'' @ node) = Inr items"
    and rd: "readCGroupBlkioFile cl (h @ [ListPods (CarinaSchedule u @ ''-'' @ node)]) =
               (Some cb, out0)"
    and rf: "refsPods u cl items (h @ ListPods (CarinaSchedule u @ ''-'' @ node) # out0) =
               (Some refs, out1)"
    and c: "c \<in> set cb"
  shows "(k \<notin> snd ` set refs \<longrightarrow>
            writesFor k (cpath c) (snd (AllPodCGroupConfig u cl node h)) = []) \<and>
         (k \<in> snd ` set refs \<and>
          (\<forall>q. (q, k) \<in> set refs \<longrightarrow> podAnnotations q (annotationKey (cname c)) = None) \<and>
          map_of (oldBlkio c) k = Some v \<and> v \<noteq> ''0'' \<longrightarrow>
            writesFor k (cpath c) (snd (AllPodCGroupConfig u cl node h)) = [''0''])"
proof -
  note w = full_resync_writes[OF lst rd rf c, of k]
  have a: "writesFor k (cpath c) (snd (AllPodCGroupConfig u cl node h)) = []"
    if "k \<notin> snd ` set refs"
  proof -
    from that w have "map_of (newBlkio (fillRefs refs c)) k = None"
      by (simp add: fillRefs_unreferenced)
    with w show ?thesis by (simp add: dropUnchanged_map_of)
  qed
  have b: "writesFor k (cpath c) (snd (AllPodCGroupConfig u cl node h)) = [''0'']"
    if r: "k \<in> snd ` set refs"
      and n: "\<forall>q. (q, k) \<in> set refs \<longrightarrow> podAnnotations q (annotationKey (cname c)) = None"
      and o: "map_of (oldBlkio c) k = Some v" and z: "v \<noteq> ''0''"
  proof -
    from fillRefs_unannotated[OF n] r o
    have new: "map_of (newBlkio (fillRefs refs c)) k = Some ''0''" by simp
    have "\<not> (\<exists>v'. (k, v') \<in> set (oldBlkio c) \<and> Some ''0'' = Some v')"
    proof
      assume "\<exists>v'. (k, v') \<in> set (oldBlkio c) \<and> Some ''0'' = Some v'"
      then have "(k, ''0'') \<in> set (oldBlkio c)" by auto
      with w have "map_of (oldBlkio c) k = Some ''0''" by simp
      with o z show False by simp
    qed
    with new have "map_of (dropUnchanged (oldBlkio c) (newBlkio (fillRefs refs c))) k = Some ''0''"
      by (simp add: dropUnchanged_map_of)
    with w show ?thesis by simp
  qed
  from a b show ?thesis by blast
qed


lemma scan_limit: "scanLines [''8:16 1048576''] [] = Some [(''8:16'', ''1048576'')]"
  by (simp add: TrimSpace_def runeWidth_def spaceRunes_def Let_def)

lemma limited_read:
  "readCGroupBlkioFile limitedClient h =
     (Some [\<lparr>cname = BlkIOThrottleReadBPS, cpath = BlkIOCGroupPath @ BlkIOThrottleReadBPS,
             oldBlkio = [], newBlkio = []\<rparr>,
            \<lparr>cname = BlkIOThrottleReadIOPS, cpath = BlkIOCGroupPath @ BlkIOThrottleReadIOPS,
             oldBlkio = [], newBlkio = []\<rparr>,
            \<lparr>cname = BlkIOThrottleWriteBPS, cpath = BlkIOCGroupPath @ BlkIOThrottleWriteBPS,
             oldBlkio = [(''8:16'', ''1048576'')], newBlkio = []\<rparr>,
            \<lparr>cname = BlkIOThrottleWriteIOPS, cpath = BlkIOCGroupPath @ BlkIOThrottleWriteIOPS,
             oldBlkio = [], newBlkio = []\<rparr>],
      [OpenFile (BlkIOCGroupPath @ BlkIOThrottleReadBPS),
       OpenFile (BlkIOCGroupPath @ BlkIOThrottleReadIOPS),
       OpenFile (BlkIOCGroupPath @ BlkIOThrottleWriteBPS),
       OpenFile (BlkIOCGroupPath @ BlkIOThrottleWriteIOPS)])"
proof -
  have n: "BlkIOThrottleReadBPS \<noteq> BlkIOThrottleWriteBPS"
    "BlkIOThrottleReadIOPS \<noteq> BlkIOThrottleWriteBPS"
    "BlkIOThrottleWriteIOPS \<noteq> BlkIOThrottleWriteBPS"
    by (simp_all add: BlkIOThrottleReadBPS_def BlkIOThrottleReadIOPS_def
        BlkIOThrottleWriteBPS_def BlkIOThrottleWriteIOPS_def)
  show ?thesis
    using n by (simp add: readCGroupBlkioFile_def blkioNames_def limitedClient_def Let_def scan_limit
        del: scanLines.simps(2))
qed

lemma limited_refs:
  "refsPods exUtils limitedClient [podWeb\<lparr>podPhase := ''Running''\<rparr>] h =
     (Some [(podWeb\<lparr>podPhase := ''Running''\<rparr>, ''8:16'')], [ListPVs ''default-pvc-data''])"
  by (simp add: resolveVolume_def limitedClient_def startingClient_def podWeb_def pvData_def
      exUtils_def attr_def Let_def)

text \<open>The host has a write-bytes limit on 8:16 and the pod using that device has
  only a read-bytes override: the pass writes \<open>0\<close> for 8:16 into the write-bytes file
  once, and nothing for 8:32.\<close>

theorem full_resync_clears_unannotated_witness:
  "pListPods limitedClient [] (CarinaSchedule exUtils @ ''-'' @ ''node1'') =
     Inr [podWeb\<lparr>podPhase := ''Running''\<rparr>] \<and>
   limitWriteBPS \<in> set (the (fst (readCGroupBlkioFile limitedClient
         ([] @ [ListPods (CarinaSchedule exUtils @ ''-'' @ ''node1'')])))) \<and>
   refsPods exUtils limitedClient [podWeb\<lparr>podPhase := ''Running''\<rparr>]
     ([] @ ListPods (CarinaSchedule exUtils @ ''-'' @ ''node1'') #
        snd (readCGroupBlkioFile limitedClient
         ([] @ [ListPods (CarinaSchedule exUtils @ ''-'' @ ''node1'')]))) =
     (Some [(podWeb\<lparr>podPhase := ''Running''\<rparr>, ''8:16'')], [ListPVs ''default-pvc-data'']) \<and>
   podAnnotations (podWeb\<lparr>podPhase := ''Running''\<rparr>) (annotationKey (cname limitWriteBPS)) = None \<and>
   map_of (oldBlkio limitWriteBPS) ''8:16'' = Some ''1048576'' \<and>
   writesFor ''8:32'' (cpath limitWriteBPS)
     (snd (AllPodCGroupConfig exUtils limitedClient ''node1'' [])) = [] \<and>
   writesFor ''8:16'' (cpath limitWriteBPS)
     (snd (AllPodCGroupConfig exUtils limitedClient ''node1'' [])) = [''0'']"
proof -
  let ?pod = "podWeb\<lparr>podPhase := ''Running''\<rparr>"
  let ?h = "[] @ [ListPods (CarinaSchedule exUtils @ ''-'' @ ''node1'')]"
  obtain cb out0 where rd: "readCGroupBlkioFile limitedClient ?h = (Some cb, out0)"
    and c: "limitWriteBPS \<in> set cb"
    by (simp add: limited_read limitWriteBPS_def)
  have lst: "pListPods limitedClient [] (CarinaSchedule exUtils @ ''-'' @ ''node1'') = Inr [?pod]"
    by (simp add: limitedClient_def startingClient_def)
  have rf: "refsPods exUtils limitedClient [?pod]
              ([] @ ListPods (CarinaSchedule exUtils @ ''-'' @ ''node1'') # out0) =
              (Some [(?pod, ''8:16'')], [ListPVs ''default-pvc-data''])"
    by (rule limited_refs)
  have ann: "podAnnotations ?pod (annotationKey (cname limitWriteBPS)) = None"
    by (simp add: podWeb_def annotationKey_def limitWriteBPS_def KubernetesCustomized_def
        BlkIOThrottleWriteBPS_def)
  have old: "map_of (oldBlkio limitWriteBPS) ''8:16'' = Some ''1048576''"
    by (simp add: limitWriteBPS_def)
  have a: "writesFor ''8:32'' (cpath limitWriteBPS)
     (snd (AllPodCGroupConfig exUtils limitedClient ''node1'' [])) = []"
    using full_resync_clears_unannotated[OF lst rd rf c, of "''8:32''"] by simp
  have b: "writesFor ''8:16'' (cpath limitWriteBPS)
     (snd (AllPodCGroupConfig exUtils limitedClient ''node1'' [])) = [''0'']"
    using full_resync_clears_unannotated[OF lst rd rf c, of "''8:16''" "''1048576''"] ann old
    by simp
  from rd c have m: "limitWriteBPS \<in> set (the (fst (readCGroupBlkioFile limitedClient ?h)))"
    by simp
  from rd rf have r: "refsPods exUtils limitedClient [?pod]
     ([] @ ListPods (CarinaSchedule exUtils @ ''-'' @ ''node1'') #
        snd (readCGroupBlkioFile limitedClient ?h)) =
     (Some [(?pod, ''8:16'')], [ListPVs ''default-pvc-data''])" by simp
  from lst m r ann old a b show ?thesis by blast
qed

lemma idle_read:
  "readCGroupBlkioFile idleClient h =
     (Some [\<lparr>cname = BlkIOThrottleReadBPS, cpath = BlkIOCGroupPath @ BlkIOThrottleReadBPS,
             oldBlkio = [(''8:16'', ''1048576'')], newBlkio = []\<rparr>,
            \<lparr>cname = BlkIOThrottleReadIOPS, cpath = BlkIOCGroupPath @ BlkIOThrottleReadIOPS,
             oldBlkio = [], newBlkio = []\<rparr>,
            \<lparr>cname = BlkIOThrottleWriteBPS, cpath = BlkIOCGroupPath @ BlkIOThrottleWriteBPS,
             oldBlkio = [], newBlkio = []\<rparr>,
            \<lparr>cname = BlkIOThrottleWriteIOPS, cpath = BlkIOCGroupPath @ BlkIOThrottleWriteIOPS,
             oldBlkio = [], newBlkio = []\<rparr>],
      [OpenFile (BlkIOCGroupPath @ BlkIOThrottleReadBPS),
       OpenFile (BlkIOCGroupPath @ BlkIOThrottleReadIOPS),
       OpenFile (BlkIOCGroupPath @ BlkIOThrottleWriteBPS),
       OpenFile (BlkIOCGroupPath @ BlkIOThrottleWriteIOPS)])"
proof -
  have n: "BlkIOThrottleReadIOPS \<noteq> BlkIOThrottleReadBPS"
    "BlkIOThrottleWriteBPS \<noteq> BlkIOThrottleReadBPS"
    "BlkIOThrottleWriteIOPS \<noteq> BlkIOThrottleReadBPS"
    by (simp_all add: BlkIOThrottleReadBPS_def BlkIOThrottleReadIOPS_def
        BlkIOThrottleWriteBPS_def BlkIOThrottleWriteIOPS_def)
  show ?thesis
    using n by (simp add: readCGroupBlkioFile_def blkioNames_def idleClient_def Let_def scan_limit
        del: scanLines.simps(2))
qed

text \<open>Claim C3 as the specification words it fails when no pod references the
  device: 8:16 is in the previous read-bytes state, no pod of the local scheduler is on the
  node (so no pod overrides the limit), and the pass writes nothing for 8:16, not one
  \<open>0\<close>.\<close>

theorem unreferenced_device_counterexample:
  "map_of (oldBlkio (hd (the (fst (readCGroupBlkioFile idleClient
       [ListPods (CarinaSchedule exUtils @ ''-'' @ ''node1'')]))))) ''8:16'' = Some ''1048576'' \<and>
   pListPods idleClient [] (CarinaSchedule exUtils @ ''-'' @ ''node1'') = Inr [] \<and>
   fst (AllPodCGroupConfig exUtils idleClient ''node1'' []) = Done \<and>
   writesFor ''8:16'' (BlkIOCGroupPath @ BlkIOThrottleReadBPS)
     (snd (AllPodCGroupConfig exUtils idleClient ''node1'' [])) = []"
proof -
  have l: "pListPods idleClient h idx = Inr []" for h idx
    by (simp add: idleClient_def)
  have a: "AllPodCGroupConfig exUtils idleClient ''node1'' [] =
      (Done, [ListPods (CarinaSchedule exUtils @ ''-'' @ ''node1''),
       OpenFile (BlkIOCGroupPath @ BlkIOThrottleReadBPS),
       OpenFile (BlkIOCGroupPath @ BlkIOThrottleReadIOPS),
       OpenFile (BlkIOCGroupPath @ BlkIOThrottleWriteBPS),
       OpenFile (BlkIOCGroupPath @ BlkIOThrottleWriteIOPS)])"
    by (simp add: AllPodCGroupConfig_def l idle_read writeCgroupBlkioFile_def writeOne_def Let_def)
  show ?thesis unfolding a idle_read by (simp add: l)
qed

end
